theory Spec2Isabelle
  imports Complex_Main
begin

section \<open>Values shared by the extractor and the quote generator\<close>

text \<open>
  A Python \<open>str\<close> is a sequence of Unicode code points, so a text is a list of code
  points (natural numbers); \<open>str\<close> turns an ASCII literal into such a text.
  Python's floats and ints are modelled as exact rationals: sums, products and comparisons
  are the exact ones, and \<open>py_round\<close> is \<open>round(x, n)\<close> on the exact value (ties to
  even). The clock (\<open>timestamp\<close>, \<open>valid_until\<close>) is left out of the records.
\<close>

type_synonym ustring = "nat list"

definition str :: "string \<Rightarrow> ustring" where
  "str s = map of_char s"

datatype py_error = KeyError | TypeError | ValueError

definition round_half_even :: "rat \<Rightarrow> int" where
  "round_half_even q =
     (let f = \<lfloor>q\<rfloor>; d = q - of_int f
      in if d < 1 / 2 then f else if 1 / 2 < d then f + 1
         else if even f then f else f + 1)"

definition py_round :: "rat \<Rightarrow> nat \<Rightarrow> rat" where
  "py_round q n = of_int (round_half_even (q * 10 ^ n)) / 10 ^ n"

record product_mention =
  pm_name :: ustring
  pm_quantity :: "rat option"
  pm_unit :: "ustring option"
  pm_confidence :: rat
  pm_notes :: ustring

text \<open>
  The price list is a dict whose keys are product names, kept in insertion order:
  an association list. An entry always has a price; its unit is read with
  \<open>.get("unit", "piece")\<close>.
\<close>

record price_info =
  pi_price :: rat
  pi_unit :: "ustring option"

type_synonym price_list = "(ustring \<times> price_info) list"

text \<open>
  A parsed event is a dict. \<open>generate\<close> reads \<open>email_id\<close> and \<open>products\<close> by
  subscript and \<open>currency\<close> with \<open>.get\<close>, so the model keeps apart a dict without the
  key \<open>currency\<close> (\<open>None\<close>), a dict that maps the key to Python's \<open>None\<close>
  (\<open>Some None\<close>) and a dict that maps it to a code (\<open>Some (Some c)\<close>).
\<close>

record parsed_event =
  ev_email_id :: ustring
  ev_products :: "product_mention list"
  ev_currency :: "ustring option option"

section \<open>Python's \<open>re\<close> and \<open>str\<close>\<close>

text \<open>
  What Python does with a code point outside ASCII comes from the Unicode database of the
  interpreter, which is not part of the repository: whether it is alphanumeric (\<open>\\w\<close>,
  \<open>\\b\<close>), its decimal digit value (\<open>\\d\<close>, \<open>float\<close>), its lower-case form
  (\<open>str.lower\<close>, given the text before and after it) and which characters it matches
  under \<open>re.IGNORECASE\<close>. These tables are a parameter of the model. What is fixed here
  is the behaviour on ASCII, the white space characters (\<open>str.isspace\<close>, \<open>\\s\<close>) and
  the four code points outside ASCII that an ASCII letter matches under
  \<open>re.IGNORECASE\<close>: U+0130 and U+0131 (i), U+212A (k) and U+017F (s).
\<close>


record unicode_db =
  ud_alnum :: "nat \<Rightarrow> bool"
  ud_decimal :: "nat \<Rightarrow> nat option"
  ud_lower :: "nat list \<Rightarrow> nat \<Rightarrow> nat list \<Rightarrow> nat list"
  ud_ci_eq :: "nat \<Rightarrow> nat \<Rightarrow> bool"

definition is_space :: "nat \<Rightarrow> bool" where
  "is_space c \<longleftrightarrow>
     (9 \<le> c \<and> c \<le> 13) \<or> (28 \<le> c \<and> c \<le> 32) \<or> c = 133 \<or> c = 160 \<or> c = 5760
     \<or> (8192 \<le> c \<and> c \<le> 8202) \<or> c = 8232 \<or> c = 8233 \<or> c = 8239 \<or> c = 8287
     \<or> c = 12288"

definition ascii_upper_letter :: "nat \<Rightarrow> bool" where
  "ascii_upper_letter c \<longleftrightarrow> 65 \<le> c \<and> c \<le> 90"

definition ascii_lower_letter :: "nat \<Rightarrow> bool" where
  "ascii_lower_letter c \<longleftrightarrow> 97 \<le> c \<and> c \<le> 122"

definition ascii_digit :: "nat \<Rightarrow> bool" where
  "ascii_digit c \<longleftrightarrow> 48 \<le> c \<and> c \<le> 57"

definition ascii_tolower :: "nat \<Rightarrow> nat" where
  "ascii_tolower c = (if ascii_upper_letter c then c + 32 else c)"

definition cased_like_ascii :: "nat \<Rightarrow> bool" where
  "cased_like_ascii c \<longleftrightarrow> c = 304 \<or> c = 305 \<or> c = 383 \<or> c = 8490"

definition is_word :: "unicode_db \<Rightarrow> nat \<Rightarrow> bool" where
  "is_word u c \<longleftrightarrow>
     (if c < 128 then ascii_upper_letter c \<or> ascii_lower_letter c \<or> ascii_digit c \<or> c = 95
      else if cased_like_ascii c then True
      else ud_alnum u c)"

definition digit_value :: "unicode_db \<Rightarrow> nat \<Rightarrow> nat option" where
  "digit_value u c =
     (if c < 128 then (if ascii_digit c then Some (c - 48) else None)
      else if cased_like_ascii c then None
      else ud_decimal u c)"

definition is_decimal :: "unicode_db \<Rightarrow> nat \<Rightarrow> bool" where
  "is_decimal u c \<longleftrightarrow> digit_value u c \<noteq> None"

definition ci :: "unicode_db \<Rightarrow> nat \<Rightarrow> nat \<Rightarrow> bool" where
  "ci u p c \<longleftrightarrow>
     (if p < 128 then
        (if ascii_upper_letter p \<or> ascii_lower_letter p then
           ascii_tolower c = ascii_tolower p
           \<or> (ascii_tolower p = 105 \<and> (c = 304 \<or> c = 305))
           \<or> (ascii_tolower p = 107 \<and> c = 8490)
           \<or> (ascii_tolower p = 115 \<and> c = 383)
         else c = p)
      else ud_ci_eq u p c)"

datatype regex =
    Chr "nat \<Rightarrow> bool"
  | Eps
  | Cat regex regex
  | Alt regex regex
  | Star regex
  | Lazy regex
  | Bnd
  | Grp regex

type_synonym mstate = "nat option \<times> nat list \<times> nat list option"

definition at_boundary :: "(nat \<Rightarrow> bool) \<Rightarrow> nat option \<Rightarrow> nat list \<Rightarrow> bool" where
  "at_boundary w pv cs \<longleftrightarrow>
     (case pv of None \<Rightarrow> False | Some c \<Rightarrow> w c) \<noteq> (case cs of [] \<Rightarrow> False | c # _ \<Rightarrow> w c)"

function (sequential) run :: "(nat \<Rightarrow> bool) \<Rightarrow> regex \<Rightarrow> mstate \<Rightarrow> mstate list" where
  "run w (Chr p) (pv, [], g) = []"
| "run w (Chr p) (pv, c # cs, g) = (if p c then [(Some c, cs, g)] else [])"
| "run w Eps s = [s]"
| "run w (Cat a b) s = concat (map (run w b) (run w a s))"
| "run w (Alt a b) s = run w a s @ run w b s"
| "run w (Star a) (pv, cs, g) =
     concat (map (\<lambda>(pv', cs', g').
                    if length cs' < length cs then run w (Star a) (pv', cs', g') else [])
                 (run w a (pv, cs, g)))
     @ [(pv, cs, g)]"
| "run w (Lazy a) (pv, cs, g) =
     (pv, cs, g) #
     concat (map (\<lambda>(pv', cs', g').
                    if length cs' < length cs then run w (Lazy a) (pv', cs', g') else [])
                 (run w a (pv, cs, g)))"
| "run w Bnd (pv, cs, g) = (if at_boundary w pv cs then [(pv, cs, g)] else [])"
| "run w (Grp a) (pv, cs, g) =
     map (\<lambda>(pv', cs', g'). (pv', cs', Some (take (length cs - length cs') cs)))
         (run w a (pv, cs, g))"
  by pat_completeness auto
termination
  by (relation "inv_image (measure size <*lex*> measure length) (\<lambda>(w, r, pv, cs, g). (r, cs))") auto





text \<open>The texts a pattern can consume, whatever stands around them: a word boundary
  consumes nothing, a group consumes what its body consumes.\<close>

inductive accepts :: "regex \<Rightarrow> nat list \<Rightarrow> bool" where
  acc_Chr: "p c \<Longrightarrow> accepts (Chr p) [c]"
| acc_Eps: "accepts Eps []"
| acc_Cat: "accepts a xs \<Longrightarrow> accepts b ys \<Longrightarrow> accepts (Cat a b) (xs @ ys)"
| acc_AltL: "accepts a xs \<Longrightarrow> accepts (Alt a b) xs"
| acc_AltR: "accepts b xs \<Longrightarrow> accepts (Alt a b) xs"
| acc_Star0: "accepts (Star a) []"
| acc_Star: "accepts a xs \<Longrightarrow> accepts (Star a) ys \<Longrightarrow> accepts (Star a) (xs @ ys)"
| acc_Lazy0: "accepts (Lazy a) []"
| acc_Lazy: "accepts a xs \<Longrightarrow> accepts (Lazy a) ys \<Longrightarrow> accepts (Lazy a) (xs @ ys)"
| acc_Bnd: "accepts Bnd []"
| acc_Grp: "accepts a xs \<Longrightarrow> accepts (Grp a) xs"

fun no_grp :: "regex \<Rightarrow> bool" where
  "no_grp (Chr p) = True"
| "no_grp Eps = True"
| "no_grp (Cat a b) = (no_grp a \<and> no_grp b)"
| "no_grp (Alt a b) = (no_grp a \<and> no_grp b)"
| "no_grp (Star a) = no_grp a"
| "no_grp (Lazy a) = no_grp a"
| "no_grp Bnd = True"
| "no_grp (Grp a) = False"

type_synonym rmatch = "nat \<times> nat list \<times> nat list option"

function find_iter ::
  "(nat \<Rightarrow> bool) \<Rightarrow> regex \<Rightarrow> bool \<Rightarrow> nat option \<Rightarrow> nat list \<Rightarrow> nat \<Rightarrow> rmatch list" where
  "find_iter w r must pv cs k =
     (case filter (\<lambda>(pv', cs', g'). \<not> must \<or> length cs' < length cs) (run w r (pv, cs, None)) of
        (pv', cs', g') # _ \<Rightarrow>
          (k, take (length cs - length cs') cs, g') #
          (if length cs' < length cs
           then find_iter w r False pv' cs' (k + (length cs - length cs'))
           else if must then []
           else find_iter w r True pv cs k)
      | [] \<Rightarrow>
          (case cs of
             [] \<Rightarrow> []
           | c # cs' \<Rightarrow> find_iter w r False (Some c) cs' (k + 1)))"
  by pat_completeness auto
termination
  by (relation "inv_image (measure length <*lex*> measure (\<lambda>b. if b then 0 else 1))
                  (\<lambda>(w, r, must, pv, cs, k). (cs, must))") auto

definition finditer :: "(nat \<Rightarrow> bool) \<Rightarrow> regex \<Rightarrow> ustring \<Rightarrow> rmatch list" where
  "finditer w r s = find_iter w r False None s 0"

definition findall :: "(nat \<Rightarrow> bool) \<Rightarrow> regex \<Rightarrow> ustring \<Rightarrow> ustring list" where
  "findall w r s = map (\<lambda>(k, m, g). case g of None \<Rightarrow> m | Some x \<Rightarrow> x) (finditer w r s)"

definition re_search :: "(nat \<Rightarrow> bool) \<Rightarrow> regex \<Rightarrow> ustring \<Rightarrow> rmatch option" where
  "re_search w r s = (case finditer w r s of [] \<Rightarrow> None | m # _ \<Rightarrow> Some m)"

fun drop_spans :: "rmatch list \<Rightarrow> nat \<Rightarrow> ustring \<Rightarrow> ustring" where
  "drop_spans [] pos s = s"
| "drop_spans ((k, m, g) # ms) pos s =
     take (k - pos) s @ drop_spans ms (k + length m) (drop (k - pos + length m) s)"

definition re_sub_empty :: "(nat \<Rightarrow> bool) \<Rightarrow> regex \<Rightarrow> ustring \<Rightarrow> ustring" where
  "re_sub_empty w r s = drop_spans (finditer w r s) 0 s"

definition lit :: "unicode_db \<Rightarrow> string \<Rightarrow> regex" where
  "lit u s = foldr (\<lambda>c r. Cat (Chr (ci u (of_char c))) r) s Eps"

definition lit_exact :: "string \<Rightarrow> regex" where
  "lit_exact s = foldr (\<lambda>c r. Cat (Chr (\<lambda>x. x = of_char c)) r) s Eps"

definition Plus :: "regex \<Rightarrow> regex" where
  "Plus r = Cat r (Star r)"

definition LazyPlus :: "regex \<Rightarrow> regex" where
  "LazyPlus r = Cat r (Lazy r)"

definition Opt :: "regex \<Rightarrow> regex" where
  "Opt r = Alt r Eps"

fun alts :: "regex list \<Rightarrow> regex" where
  "alts [] = Chr (\<lambda>c. False)"
| "alts [r] = r"
| "alts (r # rs) = Alt r (alts rs)"


section \<open>String methods\<close>

definition strip :: "ustring \<Rightarrow> ustring" where
  "strip s = rev (dropWhile is_space (rev (dropWhile is_space s)))"

fun split_on :: "nat \<Rightarrow> ustring \<Rightarrow> ustring list" where
  "split_on d [] = [[]]"
| "split_on d (c # cs) =
     (if c = d then [] # split_on d cs
      else (case split_on d cs of [] \<Rightarrow> [[c]] | l # ls \<Rightarrow> (c # l) # ls))"

fun join_with :: "ustring \<Rightarrow> ustring list \<Rightarrow> ustring" where
  "join_with d [] = []"
| "join_with d [l] = l"
| "join_with d (l # ls) = l @ d @ join_with d ls"

definition startswith :: "ustring \<Rightarrow> ustring \<Rightarrow> bool" where
  "startswith s p \<longleftrightarrow> take (length p) s = p"

fun lower_loop :: "unicode_db \<Rightarrow> ustring \<Rightarrow> ustring \<Rightarrow> ustring" where
  "lower_loop u pre [] = []"
| "lower_loop u pre (c # cs) =
     (if c < 128 then [ascii_tolower c]
      else if c = 383 \<or> c = 305 then [c]
      else if c = 8490 then [107]
      else if c = 304 then [105, 775]
      else ud_lower u pre c cs)
     @ lower_loop u (pre @ [c]) cs"

definition lower :: "unicode_db \<Rightarrow> ustring \<Rightarrow> ustring" where
  "lower u s = lower_loop u [] s"

definition upper_cp :: "nat \<Rightarrow> nat" where
  "upper_cp c = (if ascii_lower_letter c then c - 32 else if c = 383 then 83 else c)"

fun digits_value :: "unicode_db \<Rightarrow> nat \<Rightarrow> ustring \<Rightarrow> nat option" where
  "digits_value u acc [] = Some acc"
| "digits_value u acc (c # cs) =
     (case digit_value u c of None \<Rightarrow> None | Some d \<Rightarrow> digits_value u (acc * 10 + d) cs)"

definition py_float :: "unicode_db \<Rightarrow> ustring \<Rightarrow> py_error + rat" where
  "py_float u s =
     (let ip = takeWhile (\<lambda>c. c \<noteq> 46) s; rest = dropWhile (\<lambda>c. c \<noteq> 46) s
      in if ip = [] then Inl ValueError
         else (case digits_value u 0 ip of
                 None \<Rightarrow> Inl ValueError
               | Some n \<Rightarrow>
                   (case rest of
                      [] \<Rightarrow> Inr (of_nat n)
                    | _ # fp \<Rightarrow>
                        if fp = [] then Inl ValueError
                        else (case digits_value u 0 fp of
                                None \<Rightarrow> Inl ValueError
                              | Some f \<Rightarrow> Inr (of_nat n + of_nat f / 10 ^ length fp)))))"

section \<open>workflow/parser.py\<close>

record email_parser =
  ep_price_list :: price_list
  product_names :: "ustring list"

definition EmailParser :: "price_list \<Rightarrow> email_parser" where
  "EmailParser pl = \<lparr> ep_price_list = pl, product_names = map fst pl \<rparr>"

definition wordchar :: "nat \<Rightarrow> bool" where
  "wordchar c \<longleftrightarrow> ascii_upper_letter c \<or> ascii_lower_letter c \<or> ascii_digit c"

definition email_pattern :: regex where
  "email_pattern =
     Cat Bnd
       (Cat (Plus (Chr (\<lambda>c. wordchar c \<or> c = 46 \<or> c = 95 \<or> c = 37 \<or> c = 43 \<or> c = 45)))
       (Cat (Chr (\<lambda>c. c = 64))
       (Cat (Plus (Chr (\<lambda>c. wordchar c \<or> c = 46 \<or> c = 45)))
       (Cat (Chr (\<lambda>c. c = 46))
       (Cat (Chr (\<lambda>c. ascii_upper_letter c \<or> c = 124 \<or> ascii_lower_letter c))
       (Cat (Plus (Chr (\<lambda>c. ascii_upper_letter c \<or> c = 124 \<or> ascii_lower_letter c)))
        Bnd))))))"

definition currency_pattern :: "unicode_db \<Rightarrow> regex" where
  "currency_pattern u =
     Cat Bnd (Cat (Grp (alts [lit u ''USD'', lit u ''EUR'', lit u ''GBP'', lit u ''CAD'',
                              lit u ''AUD'', lit u ''JPY''])) Bnd)"

definition urgency_pattern :: "unicode_db \<Rightarrow> regex" where
  "urgency_pattern u =
     Cat Bnd (Cat (Grp (alts [lit u ''asap'', lit u ''urgent'', lit u ''rush'',
                              lit u ''immediate'', lit u ''quick'', lit u ''fast''])) Bnd)"

definition number_re :: "unicode_db \<Rightarrow> regex" where
  "number_re u =
     Cat (Plus (Chr (is_decimal u)))
         (Opt (Cat (Chr (\<lambda>c. c = 46)) (Plus (Chr (is_decimal u)))))"

definition quantity_pattern :: "unicode_db \<Rightarrow> regex" where
  "quantity_pattern u =
     Cat Bnd
       (Cat (Grp (number_re u))
       (Cat (Star (Chr is_space))
       (Cat (Opt (alts [Cat (lit u ''pc'') (Opt (lit u ''s'')),
                        Cat (lit u ''piece'') (Opt (lit u ''s'')),
                        Cat (lit u ''unit'') (Opt (lit u ''s'')),
                        Cat (lit u ''kit'') (Opt (lit u ''s'')),
                        Cat (lit u ''pack'') (Opt (lit u ''s'')),
                        Cat (lit u ''boxe'') (Opt (lit u ''s'')),
                        Cat (lit u ''set'') (Opt (lit u ''s''))]))
        Bnd)))"

definition signature_patterns :: "unicode_db \<Rightarrow> regex list" where
  "signature_patterns u =
     [Cat (lit u ''--'') (Cat (Star (Chr is_space)) (Cat (Chr (\<lambda>c. c = 10)) (Star (Chr (\<lambda>c. True))))),
      Cat (lit u ''Best regards,'') (Star (Chr (\<lambda>c. True))),
      Cat (lit u ''Sincerely,'') (Star (Chr (\<lambda>c. True))),
      Cat (lit u ''Thank you,'') (Star (Chr (\<lambda>c. True))),
      Cat (lit u ''Regards,'') (Star (Chr (\<lambda>c. True)))]"

definition quoted_line :: "ustring \<Rightarrow> bool" where
  "quoted_line line \<longleftrightarrow> startswith (strip line) [62] \<or> startswith (strip line) [124]"

definition clean_content :: "unicode_db \<Rightarrow> ustring \<Rightarrow> ustring" where
  "clean_content u content =
     (let lines = split_on 10 content;
          clean_lines = filter (\<lambda>line. \<not> startswith (strip line) [62]
                                        \<and> \<not> startswith (strip line) [124]) lines;
          content1 = join_with [10] clean_lines;
          content2 = foldl (\<lambda>c pattern. re_sub_empty (is_word u) pattern c) content1
                       (signature_patterns u)
      in strip content2)"

record sender =
  s_name :: ustring
  s_email :: ustring
  s_confidence :: rat

definition name_pattern :: "unicode_db \<Rightarrow> regex" where
  "name_pattern u =
     Cat (lit u ''From:'')
       (Cat (Star (Chr is_space))
       (Cat (Grp (LazyPlus (Chr (\<lambda>c. c \<noteq> 60))))
       (Cat (Star (Chr is_space))
       (Cat (Chr (\<lambda>c. c = 60))
       (Cat (Plus (Chr (\<lambda>c. c \<noteq> 62)))
            (Chr (\<lambda>c. c = 62)))))))"

definition fallback_pattern :: "unicode_db \<Rightarrow> regex" where
  "fallback_pattern u =
     Cat (lit u ''From:'')
       (Cat (Star (Chr is_space))
            (Grp (Plus (Chr (\<lambda>c. c \<noteq> 60 \<and> c \<noteq> 10)))))"

definition match_group1 :: "rmatch \<Rightarrow> ustring" where
  "match_group1 m = (case m of (k, t, g) \<Rightarrow> (case g of None \<Rightarrow> [] | Some x \<Rightarrow> x))"

definition extract_sender :: "unicode_db \<Rightarrow> ustring \<Rightarrow> sender" where
  "extract_sender u content =
     (let emails = findall (is_word u) email_pattern content;
          name_match = (case re_search (is_word u) (name_pattern u) content of
                          None \<Rightarrow> re_search (is_word u) (fallback_pattern u) content
                        | Some m \<Rightarrow> Some m);
          sender_email = (case emails of [] \<Rightarrow> str ''unknown@example.com'' | e # _ \<Rightarrow> e);
          sender_name = (case name_match of None \<Rightarrow> str ''Unknown''
                         | Some m \<Rightarrow> strip (match_group1 m));
          confidence1 = (case name_match of None \<Rightarrow> 5 / 10 | Some m \<Rightarrow> 8 / 10);
          confidence = (if emails \<noteq> [] then min (confidence1 + 2 / 10) 1 else confidence1)
      in \<lparr> s_name = sender_name, s_email = sender_email, s_confidence = confidence \<rparr>)"

definition unit_patterns :: "unicode_db \<Rightarrow> (regex \<times> string) list" where
  "unit_patterns u =
     [(Alt (Cat (lit u ''pc'') (Opt (lit u ''s''))) (Cat (lit u ''piece'') (Opt (lit u ''s''))),
       ''piece''),
      (Cat (lit u ''kit'') (Opt (lit u ''s'')), ''kit''),
      (Cat (lit u ''pack'') (Opt (lit u ''s'')), ''pack''),
      (Cat (lit u ''boxe'') (Opt (lit u ''s'')), ''box''),
      (Cat (lit u ''set'') (Opt (lit u ''s'')), ''set''),
      (Cat (lit u ''unit'') (Opt (lit u ''s'')), ''unit'')]"

fun extract_unit_loop :: "unicode_db \<Rightarrow> (regex \<times> string) list \<Rightarrow> ustring \<Rightarrow> ustring option" where
  "extract_unit_loop u [] txt = None"
| "extract_unit_loop u ((pattern, unit) # ps) txt =
     (if re_search (is_word u) pattern txt \<noteq> None then Some (str unit)
      else extract_unit_loop u ps txt)"

definition extract_unit :: "unicode_db \<Rightarrow> ustring \<Rightarrow> ustring \<Rightarrow> ustring option" where
  "extract_unit u txt quantity = extract_unit_loop u (unit_patterns u) txt"

definition extract_quantity_near_position ::
  "unicode_db \<Rightarrow> ustring \<Rightarrow> nat \<Rightarrow> py_error + (rat option \<times> ustring option)" where
  "extract_quantity_near_position u txt position =
     (let before_text = drop (position - 50) (take position txt);
          after_text = take 50 (drop position txt);
          before_quantities = findall (is_word u) (quantity_pattern u) before_text
      in if before_quantities \<noteq> []
         then (case py_float u (last before_quantities) of
                 Inl e \<Rightarrow> Inl e
               | Inr quantity \<Rightarrow>
                   Inr (Some quantity, extract_unit u before_text (last before_quantities)))
         else (let after_quantities = findall (is_word u) (quantity_pattern u) after_text
               in if after_quantities \<noteq> []
                  then (case py_float u (hd after_quantities) of
                          Inl e \<Rightarrow> Inl e
                        | Inr quantity \<Rightarrow>
                            Inr (Some quantity, extract_unit u after_text (hd after_quantities)))
                  else Inr (None, None)))"


text \<open>\<open>re.escape(product_name)\<close> compiled with \<open>re.IGNORECASE\<close>: the name's characters,
  each matched without regard to case.\<close>

definition product_pattern :: "unicode_db \<Rightarrow> ustring \<Rightarrow> regex" where
  "product_pattern u product_name = foldr (\<lambda>c r. Cat (Chr (ci u c)) r) product_name Eps"

fun matches_loop ::
  "unicode_db \<Rightarrow> ustring \<Rightarrow> ustring \<Rightarrow> rmatch list
     \<Rightarrow> py_error + (ustring \<times> rat option \<times> ustring option) list" where
  "matches_loop u line product_name [] = Inr []"
| "matches_loop u line product_name (m # ms) =
     (case extract_quantity_near_position u line (fst m) of
        Inl e \<Rightarrow> Inl e
      | Inr (quantity, unit) \<Rightarrow>
          (case matches_loop u line product_name ms of
             Inl e \<Rightarrow> Inl e
           | Inr found \<Rightarrow> Inr ((product_name, quantity, unit) # found)))"

fun names_loop ::
  "unicode_db \<Rightarrow> ustring \<Rightarrow> ustring list
     \<Rightarrow> py_error + (ustring \<times> rat option \<times> ustring option) list" where
  "names_loop u line [] = Inr []"
| "names_loop u line (product_name # names) =
     (case matches_loop u line product_name
             (finditer (is_word u) (product_pattern u product_name) line) of
        Inl e \<Rightarrow> Inl e
      | Inr found1 \<Rightarrow>
          (case names_loop u line names of
             Inl e \<Rightarrow> Inl e
           | Inr found2 \<Rightarrow> Inr (found1 @ found2)))"

definition find_products_in_line ::
  "unicode_db \<Rightarrow> email_parser \<Rightarrow> ustring
     \<Rightarrow> py_error + (ustring \<times> rat option \<times> ustring option) list" where
  "find_products_in_line u self line = names_loop u line (product_names self)"

definition calculate_product_confidence ::
  "email_parser \<Rightarrow> ustring \<Rightarrow> rat option \<Rightarrow> ustring \<Rightarrow> rat" where
  "calculate_product_confidence self product_name quantity context =
     (let c0 = 5 / 10;
          c1 = (if product_name \<in> set (product_names self) then c0 + 3 / 10 else c0);
          c2 = (if quantity \<noteq> None then c1 + 2 / 10 else c1);
          c3 = (if 10 < length (strip context) then c2 + 1 / 10 else c2)
      in min c3 1)"

definition generate_product_notes :: "ustring \<Rightarrow> rat option \<Rightarrow> ustring option \<Rightarrow> ustring" where
  "generate_product_notes product_name quantity unit =
     (let n1 = (if quantity = None then [str ''Quantity not specified''] else []);
          n2 = (if unit = None then n1 @ [str ''Unit not specified''] else n1);
          n3 = (if n2 = [] then [str ''Complete information extracted''] else n2)
      in join_with (str ''; '') n3)"

definition make_mention ::
  "email_parser \<Rightarrow> ustring \<Rightarrow> ustring \<times> rat option \<times> ustring option \<Rightarrow> product_mention" where
  "make_mention self context found =
     (case found of (product_name, quantity, unit) \<Rightarrow>
        \<lparr> pm_name = product_name, pm_quantity = quantity, pm_unit = unit,
          pm_confidence = calculate_product_confidence self product_name quantity context,
          pm_notes = generate_product_notes product_name quantity unit \<rparr>)"

fun lines_loop ::
  "unicode_db \<Rightarrow> email_parser \<Rightarrow> ustring list \<Rightarrow> py_error + product_mention list" where
  "lines_loop u self [] = Inr []"
| "lines_loop u self (l # ls) =
     (let line = strip l
      in if line = [] then lines_loop u self ls
         else (case find_products_in_line u self line of
                 Inl e \<Rightarrow> Inl e
               | Inr found \<Rightarrow>
                   (case lines_loop u self ls of
                      Inl e \<Rightarrow> Inl e
                    | Inr rest \<Rightarrow> Inr (map (make_mention self line) found @ rest))))"

definition extract_products ::
  "unicode_db \<Rightarrow> email_parser \<Rightarrow> ustring \<Rightarrow> py_error + product_mention list" where
  "extract_products u self content =
     (case lines_loop u self (split_on 10 content) of
        Inl e \<Rightarrow> Inl e
      | Inr products \<Rightarrow>
          if products = []
          then (case find_products_in_line u self content of
                  Inl e \<Rightarrow> Inl e
                | Inr found \<Rightarrow> Inr (map (make_mention self content) found))
          else Inr products)"

fun urgency_loop :: "ustring list \<Rightarrow> ustring option" where
  "urgency_loop [] = Some (str ''low'')"
| "urgency_loop (m # ms) =
     (if m \<in> set [str ''asap'', str ''urgent'', str ''rush'', str ''immediate'']
      then Some (str ''high'')
      else if m \<in> set [str ''quick'', str ''fast''] then Some (str ''medium'')
      else urgency_loop ms)"

definition extract_urgency :: "unicode_db \<Rightarrow> ustring \<Rightarrow> ustring option" where
  "extract_urgency u content =
     (let urgency_matches = findall (is_word u) (urgency_pattern u) (lower u content)
      in if urgency_matches = [] then None else urgency_loop urgency_matches)"

definition extract_currency :: "unicode_db \<Rightarrow> ustring \<Rightarrow> ustring option" where
  "extract_currency u content =
     (let currency_matches = findall (is_word u) (currency_pattern u) content
      in case currency_matches of [] \<Rightarrow> None | c # _ \<Rightarrow> Some (map upper_cp c))"

fun gaps_loop :: "product_mention list \<Rightarrow> ustring list" where
  "gaps_loop [] = []"
| "gaps_loop (p # ps) =
     (if pm_quantity p = None then [str ''Missing quantity for '' @ pm_name p] else [])
     @ (if pm_confidence p < 6 / 10
        then [str ''Low confidence in '' @ pm_name p @ str '' extraction''] else [])
     @ gaps_loop ps"

definition identify_gaps :: "product_mention list \<Rightarrow> sender \<Rightarrow> ustring list" where
  "identify_gaps products sndr =
     (if s_confidence sndr < 7 / 10 then [str ''Unclear sender information''] else [])
     @ (if products = [] then [str ''No products identified''] else gaps_loop products)"

text \<open>
  The event \<open>parse_email\<close> returns: the keys \<open>generate\<close> reads and the rest. The key
  \<open>currency\<close> is always there, with the value \<open>None\<close> when no code was found.
\<close>

record extracted_event = parsed_event +
  ev_sender :: sender
  ev_urgency :: "ustring option"
  ev_gaps :: "ustring list"
  ev_raw_content :: ustring

definition parse_email ::
  "unicode_db \<Rightarrow> email_parser \<Rightarrow> ustring \<Rightarrow> ustring \<Rightarrow> py_error + extracted_event" where
  "parse_email u self content email_id =
     (let clean = clean_content u content;
          sndr = extract_sender u clean
      in case extract_products u self clean of
           Inl e \<Rightarrow> Inl e
         | Inr products \<Rightarrow>
             (let urgency = extract_urgency u clean;
                  currency = extract_currency u clean;
                  gaps = identify_gaps products sndr
              in Inr \<lparr> ev_email_id = email_id, ev_products = products,
                        ev_currency = Some currency, ev_sender = sndr,
                        ev_urgency = urgency, ev_gaps = gaps,
                        ev_raw_content = content \<rparr>))"

section \<open>workflow/quote.py\<close>

text \<open>A tier is a dict read with \<open>.get\<close>: every key may be missing.
  \<open>max_amount\<close> may be \<open>float('inf')\<close>.\<close>

datatype bound = Fin rat | Inf

record tier =
  min_amount :: "rat option"
  max_amount :: "bound option"
  discount :: "rat option"

record discount_rules =
  tiers :: "tier list option"

record config =
  cfg_tax_rate :: "rat option"
  cfg_default_currency :: "ustring option"

record quote_generator =
  price_list :: price_list
  discount_rules :: discount_rules
  tax_rate :: rat
  default_currency :: ustring

definition QuoteGenerator :: "price_list \<Rightarrow> discount_rules \<Rightarrow> config \<Rightarrow> quote_generator" where
  "QuoteGenerator pl dr cfg =
     \<lparr> price_list = pl, discount_rules = dr,
       tax_rate = (case cfg_tax_rate cfg of None \<Rightarrow> 95 / 1000 | Some r \<Rightarrow> r),
       default_currency = (case cfg_default_currency cfg of None \<Rightarrow> str ''USD'' | Some c \<Rightarrow> c) \<rparr>"

record line_item =
  li_product :: ustring
  li_quantity :: rat
  li_unit_price :: rat
  li_total :: rat
  li_unit :: ustring

record quote =
  q_email_id :: ustring
  q_status :: ustring
  q_line_items :: "line_item list"
  q_subtotal :: rat
  q_discount :: rat
  q_tax :: rat
  q_total :: rat
  q_currency :: "ustring option"
  q_pending_reasons :: "ustring list"
  q_discount_rate :: rat

fun products_all_known :: "price_list \<Rightarrow> product_mention list \<Rightarrow> bool" where
  "products_all_known pl [] = True"
| "products_all_known pl (p # ps) =
     (if map_of pl (pm_name p) = None then False
      else if pm_quantity p = None then False
      else products_all_known pl ps)"

definition can_generate_complete_quote :: "quote_generator \<Rightarrow> product_mention list \<Rightarrow> bool" where
  "can_generate_complete_quote g products =
     (if products = [] then False else products_all_known (price_list g) products)"

definition in_tier :: "tier \<Rightarrow> rat \<Rightarrow> bool" where
  "in_tier t subtotal =
     (let lo = (case min_amount t of None \<Rightarrow> 0 | Some m \<Rightarrow> m);
          hi = (case max_amount t of None \<Rightarrow> Inf | Some b \<Rightarrow> b)
      in lo \<le> subtotal \<and> (case hi of Inf \<Rightarrow> True | Fin m \<Rightarrow> subtotal < m))"

fun scan_tiers :: "tier list \<Rightarrow> rat \<Rightarrow> rat" where
  "scan_tiers [] subtotal = 0"
| "scan_tiers (t # ts) subtotal =
     (if in_tier t subtotal then (case discount t of None \<Rightarrow> 0 | Some d \<Rightarrow> d)
      else scan_tiers ts subtotal)"

definition calculate_discount_rate :: "quote_generator \<Rightarrow> rat \<Rightarrow> rat" where
  "calculate_discount_rate g subtotal =
     scan_tiers (case tiers (discount_rules g) of None \<Rightarrow> [] | Some ts \<Rightarrow> ts) subtotal"

text \<open>The loop of \<open>_generate_complete_quote\<close>: \<open>self.price_list[name]\<close> raises
  \<open>KeyError\<close> for an unknown name, and \<open>unit_price * None\<close> raises \<open>TypeError\<close>.\<close>

fun line_items_loop ::
  "price_list \<Rightarrow> product_mention list \<Rightarrow> line_item list \<Rightarrow> rat \<Rightarrow> py_error + (line_item list \<times> rat)" where
  "line_items_loop pl [] items subtotal = Inr (items, subtotal)"
| "line_items_loop pl (p # ps) items subtotal =
     (case map_of pl (pm_name p) of
        None \<Rightarrow> Inl KeyError
      | Some info \<Rightarrow>
          (case pm_quantity p of
             None \<Rightarrow> Inl TypeError
           | Some quantity \<Rightarrow>
               (let unit_price = pi_price info;
                    unit = (case pi_unit info of None \<Rightarrow> str ''piece'' | Some u \<Rightarrow> u);
                    line_total = unit_price * quantity
                in line_items_loop pl ps
                     (items @ [\<lparr> li_product = pm_name p, li_quantity = quantity,
                                 li_unit_price = unit_price, li_total = line_total,
                                 li_unit = unit \<rparr>])
                     (subtotal + line_total))))"

definition generate_complete_quote ::
  "quote_generator \<Rightarrow> ustring \<Rightarrow> product_mention list \<Rightarrow> ustring option \<Rightarrow> py_error + quote" where
  "generate_complete_quote g email_id products currency =
     (case line_items_loop (price_list g) products [] 0 of
        Inl e \<Rightarrow> Inl e
      | Inr (line_items, subtotal) \<Rightarrow>
          (let discount_rate = calculate_discount_rate g subtotal;
               discount_amount = subtotal * discount_rate;
               taxable_amount = subtotal - discount_amount;
               tax_amount = taxable_amount * tax_rate g;
               total = subtotal - discount_amount + tax_amount
           in Inr \<lparr> q_email_id = email_id, q_status = str ''complete'',
                     q_line_items = line_items,
                     q_subtotal = py_round subtotal 2,
                     q_discount = py_round discount_amount 2,
                     q_tax = py_round tax_amount 2,
                     q_total = py_round total 2,
                     q_currency = currency,
                     q_pending_reasons = [],
                     q_discount_rate = py_round (discount_rate * 100) 1 \<rparr>))"

fun pending_loop :: "price_list \<Rightarrow> product_mention list \<Rightarrow> ustring list \<Rightarrow> ustring list" where
  "pending_loop pl [] reasons = reasons"
| "pending_loop pl (p # ps) reasons =
     (let r1 = (if map_of pl (pm_name p) = None
                then reasons @ [str ''Unrecognized product: '' @ [39] @ pm_name p @ [39]]
                else reasons);
          r2 = (if pm_quantity p = None
                then r1 @ [str ''Missing quantity for '' @ pm_name p]
                else r1)
      in pending_loop pl ps r2)"

definition generate_pending_quote ::
  "quote_generator \<Rightarrow> ustring \<Rightarrow> product_mention list \<Rightarrow> ustring option \<Rightarrow> quote" where
  "generate_pending_quote g email_id products currency =
     (let pending_reasons =
            (if products = [] then [str ''No products identified in the inquiry'']
             else pending_loop (price_list g) products [])
      in \<lparr> q_email_id = email_id, q_status = str ''pending'',
           q_line_items = [],
           q_subtotal = 0, q_discount = 0, q_tax = 0, q_total = 0,
           q_currency = currency,
           q_pending_reasons = pending_reasons,
           q_discount_rate = 0 \<rparr>)"

definition generate :: "quote_generator \<Rightarrow> 'a parsed_event_scheme \<Rightarrow> py_error + quote" where
  "generate g parsed_event =
     (let email_id = ev_email_id parsed_event;
          products = ev_products parsed_event;
          currency = (case ev_currency parsed_event of
                        None \<Rightarrow> Some (default_currency g)
                      | Some c \<Rightarrow> c)
      in if can_generate_complete_quote g products
         then generate_complete_quote g email_id products currency
         else Inr (generate_pending_quote g email_id products currency))"

text \<open>The tables of \<open>main.py\<close> and of the tests.\<close>

definition get_default_discount_rules :: discount_rules where
  "get_default_discount_rules =
     \<lparr> tiers = Some
        [\<lparr> min_amount = Some 0, max_amount = Some (Fin 100), discount = Some (5 / 100) \<rparr>,
         \<lparr> min_amount = Some 100, max_amount = Some (Fin 500), discount = Some (10 / 100) \<rparr>,
         \<lparr> min_amount = Some 500, max_amount = Some (Fin 1000), discount = Some (15 / 100) \<rparr>,
         \<lparr> min_amount = Some 1000, max_amount = Some Inf, discount = Some (20 / 100) \<rparr>] \<rparr>"

definition get_default_config :: config where
  "get_default_config =
     \<lparr> cfg_tax_rate = Some (95 / 1000), cfg_default_currency = Some (str ''USD'') \<rparr>"

definition get_default_price_list :: price_list where
  "get_default_price_list =
     [(str ''Widget Pro'', \<lparr> pi_price = 25, pi_unit = Some (str ''piece'') \<rparr>),
      (str ''Gadget Basic'', \<lparr> pi_price = 155 / 10, pi_unit = Some (str ''piece'') \<rparr>),
      (str ''Tool Kit'', \<lparr> pi_price = 45, pi_unit = Some (str ''kit'') \<rparr>),
      (str ''Premium Widget'', \<lparr> pi_price = 75, pi_unit = Some (str ''piece'') \<rparr>),
      (str ''Bulk Pack'', \<lparr> pi_price = 200, pi_unit = Some (str ''pack'') \<rparr>)]"

text \<open>The fixtures of \<open>tests/test_quote.py\<close>.\<close>

definition test_price_list :: price_list where
  "test_price_list =
     [(str ''Widget Pro'', \<lparr> pi_price = 25, pi_unit = Some (str ''piece'') \<rparr>),
      (str ''Gadget Basic'', \<lparr> pi_price = 155 / 10, pi_unit = Some (str ''piece'') \<rparr>),
      (str ''Tool Kit'', \<lparr> pi_price = 45, pi_unit = Some (str ''kit'') \<rparr>)]"

definition test_generator :: quote_generator where
  "test_generator = QuoteGenerator test_price_list get_default_discount_rules get_default_config"

definition mention :: "ustring \<Rightarrow> rat option \<Rightarrow> ustring option \<Rightarrow> product_mention" where
  "mention n q u =
     \<lparr> pm_name = n, pm_quantity = q, pm_unit = u, pm_confidence = 1, pm_notes = [] \<rparr>"

text \<open>Predicates and per-mention reasons used to state the properties of \<open>generate\<close>.\<close>

definition is_complete_event :: "quote_generator \<Rightarrow> 'a parsed_event_scheme \<Rightarrow> bool" where
  "is_complete_event g ev \<longleftrightarrow>
     ev_products ev \<noteq> [] \<and>
     (\<forall>p \<in> set (ev_products ev).
        pm_name p \<in> fst ` set (price_list g) \<and> pm_quantity p \<noteq> None)"

definition offending :: "price_list \<Rightarrow> product_mention \<Rightarrow> bool" where
  "offending pl p \<longleftrightarrow> pm_name p \<notin> fst ` set pl \<or> pm_quantity p = None"

definition reasons_for :: "price_list \<Rightarrow> product_mention \<Rightarrow> ustring list" where
  "reasons_for pl p =
     (if map_of pl (pm_name p) = None
      then [str ''Unrecognized product: '' @ [39] @ pm_name p @ [39]] else [])
     @ (if pm_quantity p = None then [str ''Missing quantity for '' @ pm_name p] else [])"

text \<open>The vocabulary of \<open>urgency_pattern\<close>.\<close>

definition urgency_keywords :: "ustring list" where
  "urgency_keywords = [str ''asap'', str ''urgent'', str ''rush'', str ''immediate'',
                       str ''quick'', str ''fast'']"

text \<open>The urgency rule in the words of the specification: the first matched keyword
  determines the level; no match, no urgency.\<close>

definition spec_urgency :: "ustring list \<Rightarrow> ustring option" where
  "spec_urgency ms =
     (case ms of
        [] \<Rightarrow> None
      | m # _ \<Rightarrow>
          if m \<in> {str ''asap'', str ''urgent'', str ''rush'', str ''immediate''}
          then Some (str ''high'')
          else if m \<in> {str ''quick'', str ''fast''} then Some (str ''medium'')
          else Some (str ''low''))"

text \<open>A Unicode database with nothing in it, for evaluating the model on texts made of
  code points whose behaviour the model fixes.\<close>

definition minimal_db :: unicode_db where
  "minimal_db = \<lparr> ud_alnum = (\<lambda>c. False), ud_decimal = (\<lambda>c. None),
                   ud_lower = (\<lambda>pre c post. [c]), ud_ci_eq = (\<lambda>p c. p = c) \<rparr>"

text \<open>
  What the properties of urgency extraction ask of the lower-casing table: the lower-case
  form of a code point that the model leaves to the table contains no upper-case ASCII
  letter and none of U+0130, U+0131, U+017F, U+212A.
\<close>

definition sane_cp :: "nat \<Rightarrow> bool" where
  "sane_cp y \<longleftrightarrow> \<not> ascii_upper_letter y \<and> \<not> cased_like_ascii y"

definition lower_sane :: "unicode_db \<Rightarrow> bool" where
  "lower_sane u \<longleftrightarrow>
     (\<forall>pre c post. 128 \<le> c \<and> \<not> cased_like_ascii c \<longrightarrow> list_all sane_cp (ud_lower u pre c post))"

text \<open>A word boundary (\<open>\b\<close>) at index \<open>i\<close> of a text, and a keyword standing at index
  \<open>i\<close> between two word boundaries.\<close>

definition word_boundary_at :: "unicode_db \<Rightarrow> ustring \<Rightarrow> nat \<Rightarrow> bool" where
  "word_boundary_at u t i \<longleftrightarrow>
     (0 < i \<and> is_word u (t ! (i - 1))) \<noteq> (i < length t \<and> is_word u (t ! i))"

definition keyword_at :: "unicode_db \<Rightarrow> ustring \<Rightarrow> nat \<Rightarrow> ustring \<Rightarrow> bool" where
  "keyword_at u t i kw \<longleftrightarrow>
     i + length kw \<le> length t \<and> take (length kw) (drop i t) = kw
     \<and> word_boundary_at u t i \<and> word_boundary_at u t (i + length kw)"

definition urgency_tier :: "ustring \<Rightarrow> ustring" where
  "urgency_tier kw =
     (if kw \<in> {str ''asap'', str ''urgent'', str ''rush'', str ''immediate''}
      then str ''high'' else str ''medium'')"

text \<open>The state of the matcher at index \<open>i\<close> of a text that follows the character \<open>pv\<close>.\<close>

definition state_from :: "nat option \<Rightarrow> nat list \<Rightarrow> nat \<Rightarrow> mstate" where
  "state_from pv cs i = (if i = 0 then pv else Some (cs ! (i - 1)), drop i cs, None)"

text \<open>The shape of a match of \<open>number_re\<close>: digits, then perhaps a dot and digits.\<close>

definition decimal_shape :: "unicode_db \<Rightarrow> ustring \<Rightarrow> bool" where
  "decimal_shape u x \<longleftrightarrow>
     (\<exists>ip fp. ip \<noteq> [] \<and> list_all (is_decimal u) ip \<and> list_all (is_decimal u) fp
        \<and> (x = ip \<or> (fp \<noteq> [] \<and> x = ip @ [46] @ fp)))"

definition nonneg_opt :: "rat option \<Rightarrow> bool" where
  "nonneg_opt q = (case q of None \<Rightarrow> True | Some v \<Rightarrow> 0 \<le> v)"

text \<open>One keyword of the pattern at a state of the matcher: the keyword stands here and a
  word boundary follows it.\<close>

definition kw_here :: "(nat \<Rightarrow> bool) \<Rightarrow> nat list \<Rightarrow> string \<Rightarrow> bool" where
  "kw_here w cs kw \<longleftrightarrow>
     length kw \<le> length cs \<and> take (length kw) cs = str kw
     \<and> at_boundary w (Some (cs ! (length kw - 1))) (drop (length kw) cs)"

text \<open>What a group does to a state that its body reached from the text \<open>cs\<close>.\<close>

definition capture :: "nat list \<Rightarrow> mstate \<Rightarrow> mstate" where
  "capture cs = (\<lambda>(pv', cs', g'). (pv', cs', Some (take (length cs - length cs') cs)))"

text \<open>The alternatives of \<open>urgency_pattern\<close>, in its order.\<close>

definition urgency_words :: "string list" where
  "urgency_words = [''asap'', ''urgent'', ''rush'', ''immediate'', ''quick'', ''fast'']"

section \<open>The quote generator: completeness, reasons, tiers\<close>

lemma map_of_None_iff: "map_of pl k = None \<longleftrightarrow> k \<notin> fst ` set pl"
  by (simp add: map_of_eq_None_iff)

lemma products_all_known_iff:
  "products_all_known pl ps \<longleftrightarrow>
     (\<forall>p \<in> set ps. pm_name p \<in> fst ` set pl \<and> pm_quantity p \<noteq> None)"
  by (induction ps) (auto simp: map_of_None_iff)

lemma can_generate_iff: "can_generate_complete_quote g (ev_products ev) \<longleftrightarrow> is_complete_event g ev"
  by (auto simp: can_generate_complete_quote_def is_complete_event_def products_all_known_iff)

lemma line_items_loop_ok:
  "products_all_known pl ps \<Longrightarrow> \<exists>r. line_items_loop pl ps items sub = Inr r"
proof (induction ps arbitrary: items sub)
  case Nil
  then show ?case by simp
next
  case (Cons p ps)
  from Cons.prems obtain info q where
    i: "map_of pl (pm_name p) = Some info" and q: "pm_quantity p = Some q"
    and rest: "products_all_known pl ps"
    by (auto split: if_splits)
  show ?case using Cons.IH [OF rest] by (simp add: i q Let_def)
qed

lemma str_complete_neq_pending: "str ''complete'' \<noteq> str ''pending''"
  by (simp add: str_def)

lemma generate_complete_case:
  assumes "is_complete_event g ev"
  shows "\<exists>q. generate g ev = Inr q \<and> q_status q = str ''complete'' \<and> q_pending_reasons q = []
           \<and> q_currency q = (case ev_currency ev of None \<Rightarrow> Some (default_currency g) | Some c \<Rightarrow> c)"
proof -
  from assms have c: "can_generate_complete_quote g (ev_products ev)"
    by (simp add: can_generate_iff)
  then have "products_all_known (price_list g) (ev_products ev)"
    by (simp add: can_generate_complete_quote_def split: if_splits)
  then obtain r where "line_items_loop (price_list g) (ev_products ev) [] 0 = Inr r"
    using line_items_loop_ok by blast
  then show ?thesis
    using c by (cases r) (simp add: generate_def generate_complete_quote_def Let_def)
qed

lemma generate_pending_case:
  assumes "\<not> is_complete_event g ev"
  shows "generate g ev =
           Inr (generate_pending_quote g (ev_email_id ev) (ev_products ev)
                  (case ev_currency ev of None \<Rightarrow> Some (default_currency g) | Some c \<Rightarrow> c))"
  using assms by (simp add: generate_def can_generate_iff Let_def)

lemma pending_loop_concat:
  "pending_loop pl ps rs = rs @ concat (map (reasons_for pl) ps)"
  by (induction ps arbitrary: rs) (simp_all add: Let_def reasons_for_def)

lemma pending_loop_unknown:
  "p \<in> set ps \<Longrightarrow> pm_name p \<notin> fst ` set pl \<Longrightarrow>
   str ''Unrecognized product: '' @ [39] @ pm_name p @ [39] \<in> set (pending_loop pl ps rs)"
  unfolding pending_loop_concat
  by (auto simp: reasons_for_def map_of_None_iff intro!: bexI [of _ p])

lemma pending_loop_missing:
  "p \<in> set ps \<Longrightarrow> pm_quantity p = None \<Longrightarrow>
   str ''Missing quantity for '' @ pm_name p \<in> set (pending_loop pl ps rs)"
  unfolding pending_loop_concat
  by (auto simp: reasons_for_def intro!: bexI [of _ p])

lemma reasons_for_length:
  "(if offending pl p then 1 else 0) \<le> length (reasons_for pl p)"
  by (auto simp: offending_def reasons_for_def map_of_None_iff)

lemma concat_reasons_length:
  "length (filter (offending pl) ps) \<le> length (concat (map (reasons_for pl) ps))"
proof (induction ps)
  case Nil
  then show ?case by simp
next
  case (Cons a ps)
  then show ?case using reasons_for_length [of pl a] by (auto split: if_splits)
qed

lemma pending_loop_length:
  "length (filter (offending pl) ps) \<le> length (pending_loop pl ps [])"
  by (simp add: pending_loop_concat concat_reasons_length)

lemma pending_loop_nonempty:
  assumes "\<not> products_all_known pl ps"
  shows "pending_loop pl ps [] \<noteq> []"
proof -
  from assms obtain p where "p \<in> set ps" "offending pl p"
    by (auto simp: products_all_known_iff offending_def)
  then have "filter (offending pl) ps \<noteq> []"
    by (auto simp: filter_empty_conv)
  then have "0 < length (filter (offending pl) ps)" by simp
  with pending_loop_length [of pl ps] show ?thesis by auto
qed

lemma scan_tiers_first:
  "(\<exists>i < length ts. in_tier (ts ! i) s \<and> (\<forall>j < i. \<not> in_tier (ts ! j) s)
        \<and> scan_tiers ts s = (case discount (ts ! i) of None \<Rightarrow> 0 | Some d \<Rightarrow> d))
   \<or> ((\<forall>t \<in> set ts. \<not> in_tier t s) \<and> scan_tiers ts s = 0)"
proof (induction ts)
  case Nil
  then show ?case by simp
next
  case (Cons t ts)
  show ?case
  proof (cases "in_tier t s")
    case True
    then have "in_tier ((t # ts) ! 0) s \<and> (\<forall>j < 0. \<not> in_tier ((t # ts) ! j) s)
        \<and> scan_tiers (t # ts) s = (case discount ((t # ts) ! 0) of None \<Rightarrow> 0 | Some d \<Rightarrow> d)"
      by simp
    then show ?thesis by (intro disjI1 exI [of _ 0]) simp
  next
    case False
    from Cons.IH show ?thesis
    proof
      assume "\<exists>i < length ts. in_tier (ts ! i) s \<and> (\<forall>j < i. \<not> in_tier (ts ! j) s)
        \<and> scan_tiers ts s = (case discount (ts ! i) of None \<Rightarrow> 0 | Some d \<Rightarrow> d)"
      then obtain i where i: "i < length ts" "in_tier (ts ! i) s"
        "\<forall>j < i. \<not> in_tier (ts ! j) s"
        "scan_tiers ts s = (case discount (ts ! i) of None \<Rightarrow> 0 | Some d \<Rightarrow> d)"
        by blast
      have "\<forall>j < Suc i. \<not> in_tier ((t # ts) ! j) s"
      proof (intro allI impI)
        fix j assume "j < Suc i"
        then show "\<not> in_tier ((t # ts) ! j) s"
          using False i(3) by (cases j) auto
      qed
      with i False have "Suc i < length (t # ts) \<and> in_tier ((t # ts) ! Suc i) s
          \<and> (\<forall>j < Suc i. \<not> in_tier ((t # ts) ! j) s)
          \<and> scan_tiers (t # ts) s = (case discount ((t # ts) ! Suc i) of None \<Rightarrow> 0 | Some d \<Rightarrow> d)"
        by simp
      then show ?thesis by blast
    next
      assume "(\<forall>t \<in> set ts. \<not> in_tier t s) \<and> scan_tiers ts s = 0"
      with False show ?thesis by simp
    qed
  qed
qed


lemma in_tier_full:
  "in_tier \<lparr> min_amount = Some lo, max_amount = Some (Fin hi), discount = d \<rparr> s \<longleftrightarrow> lo \<le> s \<and> s < hi"
  by (simp add: in_tier_def)

lemma generate_total:
  "\<exists>q. generate g ev = Inr q"
  using generate_complete_case [of g ev] generate_pending_case [of g ev]
  by (cases "is_complete_event g ev") auto

text \<open>
  C1. For every parsed event, \<open>generate\<close> returns a quote (it never raises); the quote's
  status is "complete" exactly when the product list is non-empty and every mention has a
  name that is a key of the price list and a quantity that is not \<open>None\<close>; in every
  other case the status is "pending" and the total is 0.
\<close>

theorem C1_complete_iff_all_known:
  "\<exists>q. generate g ev = Inr q
     \<and> (q_status q = str ''complete'' \<longleftrightarrow>
          ev_products ev \<noteq> [] \<and>
          (\<forall>p \<in> set (ev_products ev).
             pm_name p \<in> fst ` set (price_list g) \<and> pm_quantity p \<noteq> None))
     \<and> (\<not> (ev_products ev \<noteq> [] \<and>
            (\<forall>p \<in> set (ev_products ev).
               pm_name p \<in> fst ` set (price_list g) \<and> pm_quantity p \<noteq> None))
          \<longrightarrow> q_status q = str ''pending'' \<and> q_total q = 0)"
proof (cases "is_complete_event g ev")
  case True
  with generate_complete_case [OF True] show ?thesis
    by (auto simp: is_complete_event_def)
next
  case False
  have "q_status (generate_pending_quote g i ps c) = str ''pending''"
       "q_total (generate_pending_quote g i ps c) = 0" for i ps c
    by (simp_all add: generate_pending_quote_def Let_def)
  with False generate_pending_case [OF False] str_complete_neq_pending show ?thesis
    by (auto simp: is_complete_event_def)
qed


lemma test_generator_simps:
  "price_list test_generator = test_price_list"
  "discount_rules test_generator = get_default_discount_rules"
  "tax_rate test_generator = 95 / 1000"
  "default_currency test_generator = str ''USD''"
  by (simp_all add: test_generator_def QuoteGenerator_def get_default_config_def)

lemma test_price_list_keys:
  "fst ` set test_price_list = {str ''Widget Pro'', str ''Gadget Basic'', str ''Tool Kit''}"
  by (auto simp: test_price_list_def)

theorem C1_complete_iff_all_known_witness:
  "(\<exists>q. generate test_generator
          \<lparr> ev_email_id = str ''test456'',
            ev_products = [mention (str ''Widget Pro'') None (Some (str ''piece''))],
            ev_currency = Some (Some (str ''USD'')) \<rparr> = Inr q
        \<and> q_status q = str ''pending'' \<and> q_total q = 0)
   \<and> (\<exists>q. generate test_generator
          \<lparr> ev_email_id = str ''test123'',
            ev_products = [mention (str ''Widget Pro'') (Some 10) (Some (str ''piece''))],
            ev_currency = Some (Some (str ''USD'')) \<rparr> = Inr q
        \<and> q_status q = str ''complete'')"
proof
  show "\<exists>q. generate test_generator
          \<lparr> ev_email_id = str ''test456'',
            ev_products = [mention (str ''Widget Pro'') None (Some (str ''piece''))],
            ev_currency = Some (Some (str ''USD'')) \<rparr> = Inr q
        \<and> q_status q = str ''pending'' \<and> q_total q = 0"
    using C1_complete_iff_all_known [of test_generator
          "\<lparr> ev_email_id = str ''test456'',
            ev_products = [mention (str ''Widget Pro'') None (Some (str ''piece''))],
            ev_currency = Some (Some (str ''USD'')) \<rparr>"]
    by (auto simp: mention_def)
  show "\<exists>q. generate test_generator
          \<lparr> ev_email_id = str ''test123'',
            ev_products = [mention (str ''Widget Pro'') (Some 10) (Some (str ''piece''))],
            ev_currency = Some (Some (str ''USD'')) \<rparr> = Inr q
        \<and> q_status q = str ''complete''"
    using C1_complete_iff_all_known [of test_generator
          "\<lparr> ev_email_id = str ''test123'',
            ev_products = [mention (str ''Widget Pro'') (Some 10) (Some (str ''piece''))],
            ev_currency = Some (Some (str ''USD'')) \<rparr>"]
    by (auto simp: mention_def test_generator_simps test_price_list_keys)
qed

text \<open>
  C2. For every parsed event, the emitted quote has a non-empty list of pending reasons
  exactly when its status is "pending", and an empty one exactly when its status is
  "complete". When the product list is empty the quote is pending and its reasons are the
  single entry "No products identified in the inquiry". Otherwise every mention whose name
  is not in the price list contributes its "Unrecognized product" reason, every mention
  without a quantity contributes its "Missing quantity" reason, and there are at least as
  many reasons as mentions with one of these defects.
\<close>

theorem C2_pending_reasons:
  "\<exists>q. generate g ev = Inr q
     \<and> (q_pending_reasons q \<noteq> [] \<longleftrightarrow> q_status q = str ''pending'')
     \<and> (q_pending_reasons q = [] \<longleftrightarrow> q_status q = str ''complete'')
     \<and> (ev_products ev = [] \<longrightarrow>
          q_status q = str ''pending''
          \<and> q_pending_reasons q = [str ''No products identified in the inquiry''])
     \<and> (ev_products ev \<noteq> [] \<longrightarrow>
          (\<forall>p \<in> set (ev_products ev).
             (pm_name p \<notin> fst ` set (price_list g) \<longrightarrow>
                str ''Unrecognized product: '' @ [39] @ pm_name p @ [39]
                  \<in> set (q_pending_reasons q))
             \<and> (pm_quantity p = None \<longrightarrow>
                  str ''Missing quantity for '' @ pm_name p \<in> set (q_pending_reasons q)))
          \<and> length (filter (\<lambda>p. pm_name p \<notin> fst ` set (price_list g) \<or> pm_quantity p = None)
                       (ev_products ev))
              \<le> length (q_pending_reasons q))"
proof (cases "is_complete_event g ev")
  case True
  then have none: "filter (\<lambda>p. pm_name p \<notin> fst ` set (price_list g) \<or> pm_quantity p = None)
                     (ev_products ev) = []"
    by (auto simp: is_complete_event_def filter_empty_conv)
  from generate_complete_case [OF True] obtain q where
    q: "generate g ev = Inr q" "q_status q = str ''complete''" "q_pending_reasons q = []"
    by blast
  from True have ne: "ev_products ev \<noteq> []"
    and ok: "\<forall>p \<in> set (ev_products ev).
               pm_name p \<in> fst ` set (price_list g) \<and> pm_quantity p \<noteq> None"
    by (simp_all add: is_complete_event_def)
  show ?thesis
    using q ne ok str_complete_neq_pending by (intro exI [of _ q]) (simp add: none)
next
  case False
  let ?c = "case ev_currency ev of None \<Rightarrow> Some (default_currency g) | Some c \<Rightarrow> c"
  let ?q = "generate_pending_quote g (ev_email_id ev) (ev_products ev) ?c"
  have gen: "generate g ev = Inr ?q" by (rule generate_pending_case [OF False])
  have st: "q_status (generate_pending_quote g i ps c) = str ''pending''" for i ps c
    by (simp add: generate_pending_quote_def Let_def)
  have rs: "q_pending_reasons (generate_pending_quote g i ps c) =
              (if ps = [] then [str ''No products identified in the inquiry'']
               else pending_loop (price_list g) ps [])" for i ps c
    by (simp add: generate_pending_quote_def Let_def)
  have nonempty: "q_pending_reasons ?q \<noteq> []"
  proof (cases "ev_products ev = []")
    case True
    then show ?thesis by (simp add: rs)
  next
    case ne: False
    with False have "\<not> products_all_known (price_list g) (ev_products ev)"
      by (simp add: is_complete_event_def products_all_known_iff)
    from pending_loop_nonempty [OF this] ne show ?thesis by (simp add: rs)
  qed
  have empty_case: "ev_products ev = [] \<longrightarrow>
          q_pending_reasons ?q = [str ''No products identified in the inquiry'']"
    by (simp add: rs)
  have each: "ev_products ev \<noteq> [] \<longrightarrow>
          (\<forall>p \<in> set (ev_products ev).
             (pm_name p \<notin> fst ` set (price_list g) \<longrightarrow>
                str ''Unrecognized product: '' @ [39] @ pm_name p @ [39]
                  \<in> set (q_pending_reasons ?q))
             \<and> (pm_quantity p = None \<longrightarrow>
                  str ''Missing quantity for '' @ pm_name p \<in> set (q_pending_reasons ?q)))"
    using pending_loop_unknown [of _ "ev_products ev" "price_list g" "[]"]
          pending_loop_missing [of _ "ev_products ev" "price_list g" "[]"]
    by (simp add: rs)
  have count: "ev_products ev \<noteq> [] \<longrightarrow>
          length (filter (\<lambda>p. pm_name p \<notin> fst ` set (price_list g) \<or> pm_quantity p = None)
                       (ev_products ev))
              \<le> length (q_pending_reasons ?q)"
    using pending_loop_length [of "price_list g" "ev_products ev"]
    by (simp add: rs offending_def [abs_def])
  show ?thesis
    using gen nonempty empty_case each count str_complete_neq_pending
    by (intro exI [of _ ?q]) (simp add: st del: append.simps)
qed


theorem C2_pending_reasons_witness:
  "(\<exists>q. generate test_generator
          \<lparr> ev_email_id = str ''test789'',
            ev_products = [mention (str ''Custom Product'') None (Some (str ''piece''))],
            ev_currency = Some (Some (str ''USD'')) \<rparr> = Inr q
        \<and> q_status q = str ''pending''
        \<and> str ''Unrecognized product: '' @ [39] @ str ''Custom Product'' @ [39]
              \<in> set (q_pending_reasons q)
        \<and> str ''Missing quantity for '' @ str ''Custom Product'' \<in> set (q_pending_reasons q)
        \<and> 1 \<le> length (q_pending_reasons q))
   \<and> (\<exists>q. generate test_generator
          \<lparr> ev_email_id = str ''test101'', ev_products = [],
            ev_currency = Some (Some (str ''USD'')) \<rparr> = Inr q
        \<and> q_status q = str ''pending''
        \<and> q_pending_reasons q = [str ''No products identified in the inquiry''])"
proof
  have unknown: "str ''Custom Product'' \<notin> fst ` set (price_list test_generator)"
    by (simp add: test_generator_simps test_price_list_keys str_def)
  show "\<exists>q. generate test_generator
          \<lparr> ev_email_id = str ''test789'',
            ev_products = [mention (str ''Custom Product'') None (Some (str ''piece''))],
            ev_currency = Some (Some (str ''USD'')) \<rparr> = Inr q
        \<and> q_status q = str ''pending''
        \<and> str ''Unrecognized product: '' @ [39] @ str ''Custom Product'' @ [39]
              \<in> set (q_pending_reasons q)
        \<and> str ''Missing quantity for '' @ str ''Custom Product'' \<in> set (q_pending_reasons q)
        \<and> 1 \<le> length (q_pending_reasons q)"
    using unknown C2_pending_reasons [of test_generator
          "\<lparr> ev_email_id = str ''test789'',
            ev_products = [mention (str ''Custom Product'') None (Some (str ''piece''))],
            ev_currency = Some (Some (str ''USD'')) \<rparr>"]
    by (auto simp: mention_def simp del: append.simps)
  show "\<exists>q. generate test_generator
          \<lparr> ev_email_id = str ''test101'', ev_products = [],
            ev_currency = Some (Some (str ''USD'')) \<rparr> = Inr q
        \<and> q_status q = str ''pending''
        \<and> q_pending_reasons q = [str ''No products identified in the inquiry'']"
    using C2_pending_reasons [of test_generator
          "\<lparr> ev_email_id = str ''test101'', ev_products = [],
            ev_currency = Some (Some (str ''USD'')) \<rparr>"]
    by auto
qed

text \<open>
  C4. For every subtotal, the discount rate is the discount of the first tier, in the
  given order, whose half-open interval \<open>min_amount \<le> subtotal < max_amount\<close> contains
  the subtotal, and 0 when no tier contains it. Under the default table of four tiers the
  subtotals 77.50, 200.00, 625.00 and 1250.00 get the rates 0.05, 0.10, 0.15 and 0.20.
\<close>

theorem C4_first_matching_tier:
  "(discount_rules g = \<lparr> tiers = Some ts \<rparr> \<longrightarrow>
      (\<exists>i < length ts. in_tier (ts ! i) s \<and> (\<forall>j < i. \<not> in_tier (ts ! j) s)
          \<and> calculate_discount_rate g s = (case discount (ts ! i) of None \<Rightarrow> 0 | Some d \<Rightarrow> d))
      \<or> ((\<forall>t \<in> set ts. \<not> in_tier t s) \<and> calculate_discount_rate g s = 0))
   \<and> (in_tier \<lparr> min_amount = Some lo, max_amount = Some (Fin hi), discount = d \<rparr> s
        \<longleftrightarrow> lo \<le> s \<and> s < hi)
   \<and> (in_tier \<lparr> min_amount = Some lo, max_amount = Some Inf, discount = d \<rparr> s \<longleftrightarrow> lo \<le> s)
   \<and> calculate_discount_rate (QuoteGenerator pl get_default_discount_rules cfg) (7750 / 100) = 5 / 100
   \<and> calculate_discount_rate (QuoteGenerator pl get_default_discount_rules cfg) 200 = 10 / 100
   \<and> calculate_discount_rate (QuoteGenerator pl get_default_discount_rules cfg) 625 = 15 / 100
   \<and> calculate_discount_rate (QuoteGenerator pl get_default_discount_rules cfg) 1250 = 20 / 100"
proof (intro conjI impI)
  assume "discount_rules g = \<lparr> tiers = Some ts \<rparr>"
  then have "calculate_discount_rate g s = scan_tiers ts s"
    by (simp add: calculate_discount_rate_def)
  with scan_tiers_first [of ts s]
  show "(\<exists>i < length ts. in_tier (ts ! i) s \<and> (\<forall>j < i. \<not> in_tier (ts ! j) s)
          \<and> calculate_discount_rate g s = (case discount (ts ! i) of None \<Rightarrow> 0 | Some d \<Rightarrow> d))
      \<or> ((\<forall>t \<in> set ts. \<not> in_tier t s) \<and> calculate_discount_rate g s = 0)"
    by simp
qed (simp_all add: in_tier_def calculate_discount_rate_def QuoteGenerator_def
       get_default_discount_rules_def)

theorem C4_first_matching_tier_witness:
  "calculate_discount_rate test_generator 200 = 10 / 100
   \<and> in_tier \<lparr> min_amount = Some 100, max_amount = Some (Fin 500), discount = Some (10 / 100) \<rparr> 200
   \<and> \<not> in_tier \<lparr> min_amount = Some 0, max_amount = Some (Fin 100), discount = Some (5 / 100) \<rparr> 200
   \<and> (\<exists>i < 4. in_tier (the (tiers (discount_rules test_generator)) ! i) 200
         \<and> (\<forall>j < i. \<not> in_tier (the (tiers (discount_rules test_generator)) ! j) 200)
         \<and> calculate_discount_rate test_generator 200
             = (case discount (the (tiers (discount_rules test_generator)) ! i) of
                  None \<Rightarrow> 0 | Some d \<Rightarrow> d))"
proof -
  let ?ts = "[\<lparr> min_amount = Some 0, max_amount = Some (Fin 100), discount = Some (5 / 100) \<rparr>,
           \<lparr> min_amount = Some 100, max_amount = Some (Fin 500), discount = Some (10 / 100) \<rparr>,
           \<lparr> min_amount = Some 500, max_amount = Some (Fin 1000), discount = Some (15 / 100) \<rparr>,
           \<lparr> min_amount = Some 1000, max_amount = Some Inf, discount = Some (20 / 100) \<rparr>]"
  have rules: "discount_rules test_generator = \<lparr> tiers = Some ?ts \<rparr>"
    by (simp add: test_generator_simps get_default_discount_rules_def)
  note inst = C4_first_matching_tier [of test_generator ?ts 200 100 500 "Some (10 / 100)"
            test_price_list get_default_config]
  have a: "in_tier \<lparr> min_amount = Some 100, max_amount = Some (Fin 500), discount = Some (10 / 100) \<rparr> 200"
    using inst by simp
  have b: "\<not> in_tier \<lparr> min_amount = Some 0, max_amount = Some (Fin 100), discount = Some (5 / 100) \<rparr> 200"
    using C4_first_matching_tier [of test_generator ?ts 200 0 100 "Some (5 / 100)"
            test_price_list get_default_config]
    by simp
  have c: "calculate_discount_rate test_generator 200 = 10 / 100"
    using inst by (simp add: test_generator_def)
  have "(\<exists>i < length ?ts. in_tier (?ts ! i) 200 \<and> (\<forall>j < i. \<not> in_tier (?ts ! j) 200)
          \<and> calculate_discount_rate test_generator 200
              = (case discount (?ts ! i) of None \<Rightarrow> 0 | Some d \<Rightarrow> d))
      \<or> ((\<forall>t \<in> set ?ts. \<not> in_tier t 200) \<and> calculate_discount_rate test_generator 200 = 0)"
    by (rule inst [THEN conjunct1, THEN mp, OF rules])
  moreover have "\<not> (\<forall>t \<in> set ?ts. \<not> in_tier t 200)"
    using a by simp
  ultimately have d: "\<exists>i < length ?ts. in_tier (?ts ! i) 200 \<and> (\<forall>j < i. \<not> in_tier (?ts ! j) 200)
          \<and> calculate_discount_rate test_generator 200
              = (case discount (?ts ! i) of None \<Rightarrow> 0 | Some d \<Rightarrow> d)"
    by blast
  have len: "length ?ts = 4" by simp
  have the_ts: "the (tiers (discount_rules test_generator)) = ?ts"
    by (simp add: rules)
  from d show ?thesis
    unfolding the_ts len using a b c by blast
qed

declare run.simps [simp del]

lemmas run_step = run.simps(1,2,3,4,5,8,9)

lemma run_accepts:
  "st' \<in> set (run w r st) \<Longrightarrow> \<exists>xs. fst (snd st) = xs @ fst (snd st') \<and> accepts r xs"
proof (induction w r st arbitrary: st' rule: run.induct)
  case (1 w p pv g)
  then show ?case by (simp add: run_step)
next
  case (2 w p pv c cs g)
  then show ?case by (auto simp: run_step split: if_splits intro: acc_Chr)
next
  case (3 w s)
  then show ?case by (auto simp: run_step intro: acc_Eps)
next
  case (4 w a b s)
  from "4.prems" obtain s1 where s1: "s1 \<in> set (run w a s)" and s': "st' \<in> set (run w b s1)"
    by (auto simp: run_step)
  from "4.IH"(1) [OF s1] obtain xs where xs: "fst (snd s) = xs @ fst (snd s1)" "accepts a xs"
    by blast
  from "4.IH"(2) [OF s1 s'] obtain ys where ys: "fst (snd s1) = ys @ fst (snd st')" "accepts b ys"
    by blast
  from xs ys have "fst (snd s) = (xs @ ys) @ fst (snd st')" "accepts (Cat a b) (xs @ ys)"
    by (auto intro: acc_Cat)
  then show ?case by blast
next
  case (5 w a b s)
  from "5.prems" have "st' \<in> set (run w a s) \<or> st' \<in> set (run w b s)"
    by (simp add: run_step)
  then show ?case
  proof
    assume "st' \<in> set (run w a s)"
    from "5.IH"(1) [OF this] show ?thesis by (blast intro: acc_AltL)
  next
    assume "st' \<in> set (run w b s)"
    from "5.IH"(2) [OF this] show ?thesis by (blast intro: acc_AltR)
  qed
next
  case (6 w a pv cs g)
  from "6.prems" consider
      (more) pv1 cs1 g1 where "(pv1, cs1, g1) \<in> set (run w a (pv, cs, g))"
        "length cs1 < length cs" "st' \<in> set (run w (Star a) (pv1, cs1, g1))"
    | (stop) "st' = (pv, cs, g)"
    by (subst (asm) run.simps(6)) (auto split: if_splits)
  then show ?case
  proof cases
    case more
    from "6.IH"(1) [OF more(1)] obtain xs where xs: "cs = xs @ cs1" "accepts a xs" by auto
    from "6.IH"(2) [OF more(1) refl refl more(2) more(3)] obtain ys where
      ys: "cs1 = ys @ fst (snd st')" "accepts (Star a) ys" by auto
    from xs ys have "cs = (xs @ ys) @ fst (snd st')" "accepts (Star a) (xs @ ys)"
      by (auto intro: acc_Star)
    then show ?thesis by (metis fst_conv snd_conv)
  next
    case stop
    then show ?thesis by (auto intro: acc_Star0)
  qed
next
  case (7 w a pv cs g)
  from "7.prems" consider
      (more) pv1 cs1 g1 where "(pv1, cs1, g1) \<in> set (run w a (pv, cs, g))"
        "length cs1 < length cs" "st' \<in> set (run w (Lazy a) (pv1, cs1, g1))"
    | (stop) "st' = (pv, cs, g)"
    by (subst (asm) run.simps(7)) (auto split: if_splits)
  then show ?case
  proof cases
    case more
    from "7.IH"(1) [OF more(1)] obtain xs where xs: "cs = xs @ cs1" "accepts a xs" by auto
    from "7.IH"(2) [OF more(1) refl refl more(2) more(3)] obtain ys where
      ys: "cs1 = ys @ fst (snd st')" "accepts (Lazy a) ys" by auto
    from xs ys have "cs = (xs @ ys) @ fst (snd st')" "accepts (Lazy a) (xs @ ys)"
      by (auto intro: acc_Lazy)
    then show ?thesis by (metis fst_conv snd_conv)
  next
    case stop
    then show ?thesis by (auto intro: acc_Lazy0)
  qed
next
  case (8 w pv cs g)
  then show ?case by (auto simp: run_step split: if_splits intro: acc_Bnd)
next
  case (9 w a pv cs g)
  from "9.prems" obtain pv1 cs1 g1 where m: "(pv1, cs1, g1) \<in> set (run w a (pv, cs, g))"
    and st': "st' = (pv1, cs1, Some (take (length cs - length cs1) cs))"
    by (auto simp: run_step)
  from "9.IH" [OF m] obtain xs where "cs = xs @ cs1" "accepts a xs" by auto
  with st' show ?case by (auto intro: acc_Grp)
qed

lemma run_no_grp:
  "no_grp r \<Longrightarrow> st' \<in> set (run w r st) \<Longrightarrow> snd (snd st') = snd (snd st)"
proof (induction w r st arbitrary: st' rule: run.induct)
  case (4 w a b s)
  from "4.prems" obtain s1 where s1: "s1 \<in> set (run w a s)" and s': "st' \<in> set (run w b s1)"
    by (auto simp: run_step)
  from "4.prems"(1) have na: "no_grp a" and nb: "no_grp b" by simp_all
  from "4.IH"(1) [OF na s1] "4.IH"(2) [OF s1 nb s'] show ?case by simp
next
  case (5 w a b s)
  from "5.prems"(1) have na: "no_grp a" and nb: "no_grp b" by simp_all
  from "5.prems"(2) have "st' \<in> set (run w a s) \<or> st' \<in> set (run w b s)"
    by (simp add: run_step)
  then show ?case
  proof
    assume "st' \<in> set (run w a s)"
    from "5.IH"(1) [OF na this] show ?thesis .
  next
    assume "st' \<in> set (run w b s)"
    from "5.IH"(2) [OF nb this] show ?thesis .
  qed
next
  case (6 w a pv cs g)
  from "6.prems"(2) consider
      (more) pv1 cs1 g1 where "(pv1, cs1, g1) \<in> set (run w a (pv, cs, g))"
        "length cs1 < length cs" "st' \<in> set (run w (Star a) (pv1, cs1, g1))"
    | (stop) "st' = (pv, cs, g)"
    by (subst (asm) run.simps(6)) (auto split: if_splits)
  then show ?case
  proof cases
    case more
    from "6.prems"(1) have na: "no_grp a" by simp
    from "6.IH"(1) [OF na more(1)] "6.IH"(2) [OF more(1) refl refl more(2) "6.prems"(1) more(3)]
    show ?thesis by simp
  next
    case stop
    then show ?thesis by simp
  qed
next
  case (7 w a pv cs g)
  from "7.prems"(2) consider
      (more) pv1 cs1 g1 where "(pv1, cs1, g1) \<in> set (run w a (pv, cs, g))"
        "length cs1 < length cs" "st' \<in> set (run w (Lazy a) (pv1, cs1, g1))"
    | (stop) "st' = (pv, cs, g)"
    by (subst (asm) run.simps(7)) (auto split: if_splits)
  then show ?case
  proof cases
    case more
    from "7.prems"(1) have na: "no_grp a" by simp
    from "7.IH"(1) [OF na more(1)] "7.IH"(2) [OF more(1) refl refl more(2) "7.prems"(1) more(3)]
    show ?thesis by simp
  next
    case stop
    then show ?thesis by simp
  qed
qed (auto simp: run_step split: if_splits)

lemma run_Grp_capture:
  assumes "st' \<in> set (run w (Grp a) (pv, cs, g))"
  shows "\<exists>xs. cs = xs @ fst (snd st') \<and> accepts a xs \<and> snd (snd st') = Some xs"
proof -
  from assms obtain pv1 cs1 g1 where m: "(pv1, cs1, g1) \<in> set (run w a (pv, cs, g))"
    and st': "st' = (pv1, cs1, Some (take (length cs - length cs1) cs))"
    by (auto simp: run_step)
  from run_accepts [OF m] obtain xs where "cs = xs @ cs1" "accepts a xs" by auto
  with st' show ?thesis by auto
qed

text \<open>A pattern of the shape \<open>\b(A)T\<close> with no group in \<open>T\<close>.\<close>

lemma run_grouped:
  assumes "st' \<in> set (run w (Cat Bnd (Cat (Grp a) t)) (pv, cs, g))" and "no_grp t"
  shows "\<exists>xs ys. cs = xs @ ys @ fst (snd st') \<and> accepts a xs \<and> snd (snd st') = Some xs"
proof -
  from assms(1) obtain s1 where s1: "s1 \<in> set (run w Bnd (pv, cs, g))"
    and r1: "st' \<in> set (run w (Cat (Grp a) t) s1)"
    by (subst (asm) run.simps(4)) auto
  from s1 have s1_eq: "s1 = (pv, cs, g)" by (auto simp: run_step split: if_splits)
  from r1 obtain s2 where s2: "s2 \<in> set (run w (Grp a) (pv, cs, g))"
    and r2: "st' \<in> set (run w t s2)"
    unfolding s1_eq by (auto simp: run.simps(4))
  from run_Grp_capture [OF s2] obtain xs where
    xs: "cs = xs @ fst (snd s2)" "accepts a xs" "snd (snd s2) = Some xs" by blast
  from run_accepts [OF r2] obtain ys where ys: "fst (snd s2) = ys @ fst (snd st')" by blast
  from run_no_grp [OF assms(2) r2] xs(3) have "snd (snd st') = Some xs" by simp
  with xs ys show ?thesis by auto
qed

declare find_iter.simps [simp del]

lemma find_iter_run:
  "(k, m, g) \<in> set (find_iter w r must pv cs k0) \<Longrightarrow>
   \<exists>pre pv0 cs0 pv' cs'. cs = pre @ cs0 \<and> (pv', cs', g) \<in> set (run w r (pv0, cs0, None))
        \<and> m = take (length cs0 - length cs') cs0"
proof (induction w r must pv cs k0 rule: find_iter.induct)
  case (1 w r must pv cs k0)
  let ?ms = "filter (\<lambda>(pv', cs', g'). \<not> must \<or> length cs' < length cs) (run w r (pv, cs, None))"
  show ?case
  proof (cases ?ms)
    case Nil
    show ?thesis
    proof (cases cs)
      case Nil': Nil
      with Nil "1.prems" show ?thesis
        by (subst (asm) find_iter.simps) simp
    next
      case (Cons c cs1)
      with Nil "1.prems" have mem: "(k, m, g) \<in> set (find_iter w r False (Some c) cs1 (k0 + 1))"
        by (subst (asm) find_iter.simps) simp
      from "1.IH"(1) [OF Nil Cons mem] obtain pre pv0 cs0 pv' cs' where
        "cs1 = pre @ cs0" "(pv', cs', g) \<in> set (run w r (pv0, cs0, None))"
        "m = take (length cs0 - length cs') cs0"
        by blast
      with Cons have "cs = (c # pre) @ cs0" by simp
      with \<open>(pv', cs', g) \<in> set (run w r (pv0, cs0, None))\<close>
           \<open>m = take (length cs0 - length cs') cs0\<close>
      show ?thesis by blast
    qed
  next
    case (Cons hd_m tl_m)
    obtain pv1 cs1 g1 where hd_m: "hd_m = (pv1, cs1, g1)" by (cases hd_m) auto
    from Cons have "hd_m \<in> set ?ms" by simp
    then have in_run: "(pv1, cs1, g1) \<in> set (run w r (pv, cs, None))"
      unfolding hd_m by simp
    from run_accepts [OF in_run] obtain xs where xs: "cs = xs @ cs1" by auto
    from "1.prems" Cons hd_m consider
        (this) "(k, m, g) = (k0, take (length cs - length cs1) cs, g1)"
      | (next1) "length cs1 < length cs"
          "(k, m, g) \<in> set (find_iter w r False pv1 cs1 (k0 + (length cs - length cs1)))"
      | (again) "\<not> length cs1 < length cs" "\<not> must"
          "(k, m, g) \<in> set (find_iter w r True pv cs k0)"
      by (subst (asm) find_iter.simps) (auto split: if_splits)
    then show ?thesis
    proof cases
      case this
      with in_run have "cs = [] @ cs" "(pv1, cs1, g) \<in> set (run w r (pv, cs, None))"
        "m = take (length cs - length cs1) cs" by simp_all
      then show ?thesis by blast
    next
      case next1
      from "1.IH"(2) [OF Cons hd_m [symmetric] refl next1(1) next1(2)]
      obtain pre pv0 cs0 pv' cs' where
        "cs1 = pre @ cs0" "(pv', cs', g) \<in> set (run w r (pv0, cs0, None))"
        "m = take (length cs0 - length cs') cs0"
        by blast
      with xs have "cs = (xs @ pre) @ cs0" by simp
      with \<open>(pv', cs', g) \<in> set (run w r (pv0, cs0, None))\<close>
           \<open>m = take (length cs0 - length cs') cs0\<close>
      show ?thesis by blast
    next
      case again
      from "1.IH"(3) [OF Cons hd_m [symmetric] refl again(1) again(2) again(3)]
      show ?thesis .
    qed
  qed
qed

inductive_cases accepts_ChrE: "accepts (Chr p) xs"
inductive_cases accepts_EpsE: "accepts Eps xs"
inductive_cases accepts_CatE: "accepts (Cat a b) xs"
inductive_cases accepts_AltE: "accepts (Alt a b) xs"
inductive_cases accepts_GrpE: "accepts (Grp a) xs"
inductive_cases accepts_BndE: "accepts Bnd xs"

lemma findall_grouped:
  assumes "x \<in> set (findall w (Cat Bnd (Cat (Grp a) t)) s)" and "no_grp t"
  shows "accepts a x \<and> (\<exists>pre post. s = pre @ x @ post)"
proof -
  from assms(1) obtain k m g where
    mem: "(k, m, g) \<in> set (find_iter w (Cat Bnd (Cat (Grp a) t)) False None s 0)"
    and x: "x = (case g of None \<Rightarrow> m | Some y \<Rightarrow> y)"
    by (auto simp: findall_def finditer_def)
  from find_iter_run [OF mem] obtain pre pv0 cs0 pv' cs' where
    s: "s = pre @ cs0"
    and r: "(pv', cs', g) \<in> set (run w (Cat Bnd (Cat (Grp a) t)) (pv0, cs0, None))"
    by blast
  from run_grouped [OF r assms(2)] obtain xs ys where
    "cs0 = xs @ ys @ cs'" "accepts a xs" "g = Some xs" by auto
  with s x show ?thesis by auto
qed

lemma accepts_lit:
  "accepts (lit u s) x \<Longrightarrow> list_all2 (\<lambda>c y. ci u (of_char c) y) s x"
proof (induction s arbitrary: x)
  case Nil
  then show ?case by (auto simp: lit_def elim: accepts_EpsE)
next
  case (Cons c s)
  from Cons.prems have "accepts (Cat (Chr (ci u (of_char c))) (lit u s)) x"
    by (simp add: lit_def)
  then obtain xs ys where x: "x = xs @ ys" and a: "accepts (Chr (ci u (of_char c))) xs"
    and b: "accepts (lit u s) ys"
    by (auto elim: accepts_CatE)
  from a obtain y where "xs = [y]" "ci u (of_char c) y" by (auto elim: accepts_ChrE)
  with Cons.IH [OF b] x show ?case by simp
qed

lemma accepts_alts:
  "accepts (alts rs) x \<Longrightarrow> \<exists>r \<in> set rs. accepts r x"
proof (induction rs rule: alts.induct)
  case 1
  then show ?case by (auto elim: accepts_ChrE)
next
  case (2 r)
  then show ?case by simp
next
  case (3 r v va)
  from "3.prems" have "accepts r x \<or> accepts (alts (v # va)) x"
    by (auto elim: accepts_AltE)
  with "3.IH" show ?case by auto
qed

lemma find_iter_lower_bound:
  "(k, m, g) \<in> set (find_iter w r must pv cs k0) \<Longrightarrow> k0 \<le> k"
proof (induction w r must pv cs k0 rule: find_iter.induct)
  case (1 w r must pv cs k0)
  let ?ms = "filter (\<lambda>(pv', cs', g'). \<not> must \<or> length cs' < length cs) (run w r (pv, cs, None))"
  show ?case
  proof (cases ?ms)
    case Nil
    show ?thesis
    proof (cases cs)
      case Nil': Nil
      with Nil "1.prems" show ?thesis
        by (subst (asm) find_iter.simps) simp
    next
      case (Cons c cs1)
      with Nil "1.prems" have mem: "(k, m, g) \<in> set (find_iter w r False (Some c) cs1 (k0 + 1))"
        by (subst (asm) find_iter.simps) simp
      from "1.IH"(1) [OF Nil Cons mem] show ?thesis by simp
    qed
  next
    case (Cons hd_m tl_m)
    obtain pv1 cs1 g1 where hd_m: "hd_m = (pv1, cs1, g1)" by (cases hd_m) auto
    from "1.prems" Cons hd_m consider
        (this) "(k, m, g) = (k0, take (length cs - length cs1) cs, g1)"
      | (next1) "length cs1 < length cs"
          "(k, m, g) \<in> set (find_iter w r False pv1 cs1 (k0 + (length cs - length cs1)))"
      | (again) "\<not> length cs1 < length cs" "\<not> must"
          "(k, m, g) \<in> set (find_iter w r True pv cs k0)"
      by (subst (asm) find_iter.simps) (auto split: if_splits)
    then show ?thesis
    proof cases
      case this
      then show ?thesis by simp
    next
      case next1
      from "1.IH"(2) [OF Cons hd_m [symmetric] refl next1(1) next1(2)] show ?thesis by simp
    next
      case again
      from "1.IH"(3) [OF Cons hd_m [symmetric] refl again(1) again(2) again(3)]
      show ?thesis .
    qed
  qed
qed

lemma find_iter_sorted:
  "sorted (map fst (find_iter w r must pv cs k0))"
proof (induction w r must pv cs k0 rule: find_iter.induct)
  case (1 w r must pv cs k0)
  let ?ms = "filter (\<lambda>(pv', cs', g'). \<not> must \<or> length cs' < length cs) (run w r (pv, cs, None))"
  show ?case
  proof (cases ?ms)
    case Nil
    show ?thesis
    proof (cases cs)
      case Nil': Nil
      with Nil show ?thesis by (subst find_iter.simps) simp
    next
      case (Cons c cs1)
      with Nil have eq: "find_iter w r must pv cs k0 = find_iter w r False (Some c) cs1 (k0 + 1)"
        by (subst find_iter.simps) simp
      from "1.IH"(1) [OF Nil Cons] show ?thesis by (simp only: eq)
    qed
  next
    case (Cons hd_m tl_m)
    obtain pv1 cs1 g1 where hd_m: "hd_m = (pv1, cs1, g1)" by (cases hd_m) auto
    let ?rest = "if length cs1 < length cs
                 then find_iter w r False pv1 cs1 (k0 + (length cs - length cs1))
                 else if must then [] else find_iter w r True pv cs k0"
    have eq: "find_iter w r must pv cs k0 = (k0, take (length cs - length cs1) cs, g1) # ?rest"
      using Cons hd_m by (subst find_iter.simps) simp
    have srt: "sorted (map fst ?rest)"
      using "1.IH"(2) [OF Cons hd_m [symmetric] refl] "1.IH"(3) [OF Cons hd_m [symmetric] refl]
      by auto
    have lb: "\<forall>x \<in> set ?rest. k0 \<le> fst x"
    proof
      fix x assume x: "x \<in> set ?rest"
      obtain k m g where xe: "x = (k, m, g)" by (cases x) auto
      from x have "k0 \<le> k" unfolding xe
        by (auto split: if_splits dest: find_iter_lower_bound)
      then show "k0 \<le> fst x" by (simp add: xe)
    qed
    show ?thesis unfolding eq using srt lb by simp
  qed
qed

lemma accepts_Star_Chr_aux:
  "accepts r xs \<Longrightarrow> r = Star (Chr p) \<Longrightarrow> \<forall>c \<in> set xs. p c"
proof (induction rule: accepts.induct)
  case (acc_Star a xs ys)
  from acc_Star.prems have a: "a = Chr p" by simp
  from acc_Star.hyps(1) obtain c where "xs = [c]" "p c"
    unfolding a by (rule accepts_ChrE)
  moreover from acc_Star.IH(2) [OF acc_Star.prems] have "\<forall>c \<in> set ys. p c" .
  ultimately show ?case by simp
qed simp_all

lemma accepts_Plus_Chr:
  assumes "accepts (Plus (Chr p)) xs"
  shows "xs \<noteq> [] \<and> (\<forall>c \<in> set xs. p c)"
proof -
  from assms have "accepts (Cat (Chr p) (Star (Chr p))) xs" by (simp only: Plus_def)
  then obtain ys zs where xs: "xs = ys @ zs" and ys: "accepts (Chr p) ys"
    and zs: "accepts (Star (Chr p)) zs"
    by (rule accepts_CatE)
  from ys obtain c where c: "ys = [c]" "p c" by (rule accepts_ChrE)
  from accepts_Star_Chr_aux [OF zs refl] have "\<forall>c \<in> set zs. p c" .
  with xs c show ?thesis by simp
qed

lemma accepts_number_re:
  assumes "accepts (number_re u) x"
  shows "decimal_shape u x"
proof -
  from assms have "accepts (Cat (Plus (Chr (is_decimal u)))
         (Opt (Cat (Chr (\<lambda>c. c = 46)) (Plus (Chr (is_decimal u)))))) x"
    by (simp only: number_re_def)
  then obtain ip rest where x: "x = ip @ rest"
    and ip: "accepts (Plus (Chr (is_decimal u))) ip"
    and rest: "accepts (Opt (Cat (Chr (\<lambda>c. c = 46)) (Plus (Chr (is_decimal u))))) rest"
    by (rule accepts_CatE)
  from accepts_Plus_Chr [OF ip] have ip': "ip \<noteq> []" "list_all (is_decimal u) ip"
    by (simp_all add: list_all_iff)
  from rest have "accepts (Alt (Cat (Chr (\<lambda>c. c = 46)) (Plus (Chr (is_decimal u)))) Eps) rest"
    by (simp only: Opt_def)
  then consider
      (frac) "accepts (Cat (Chr (\<lambda>c. c = 46)) (Plus (Chr (is_decimal u)))) rest"
    | (none) "accepts Eps rest"
    by (rule accepts_AltE)
  then show ?thesis
  proof cases
    case frac
    then obtain d fp where r: "rest = d @ fp" and d: "accepts (Chr (\<lambda>c. c = 46)) d"
      and fp: "accepts (Plus (Chr (is_decimal u))) fp"
      by (rule accepts_CatE)
    from d obtain c where "d = [c]" "c = 46" by (rule accepts_ChrE)
    with r have r': "rest = [46] @ fp" by simp
    from accepts_Plus_Chr [OF fp] have fp': "fp \<noteq> []" "list_all (is_decimal u) fp"
      by (simp_all add: list_all_iff)
    from x r' ip' fp' show ?thesis unfolding decimal_shape_def by blast
  next
    case none
    then have "rest = []" by (rule accepts_EpsE)
    with x ip' have "ip \<noteq> [] \<and> list_all (is_decimal u) ip \<and> list_all (is_decimal u) []
        \<and> (x = ip \<or> ([] \<noteq> [] \<and> x = ip @ [46] @ []))"
      by simp
    then show ?thesis unfolding decimal_shape_def by blast
  qed
qed

lemma digits_value_total:
  "list_all (is_decimal u) ds \<Longrightarrow> \<exists>n. digits_value u acc ds = Some n"
proof (induction ds arbitrary: acc)
  case Nil
  then show ?case by simp
next
  case (Cons c ds)
  from Cons.prems have c: "is_decimal u c" and rest: "list_all (is_decimal u) ds"
    by simp_all
  from c obtain d where d: "digit_value u c = Some d"
    by (auto simp: is_decimal_def)
  from Cons.IH [OF rest, of "acc * 10 + d"] show ?case by (simp add: d)
qed

lemma dot_not_decimal: "\<not> is_decimal u 46"
  by (simp add: is_decimal_def digit_value_def ascii_digit_def)

lemma py_float_decimal:
  assumes "decimal_shape u x"
  shows "\<exists>q. py_float u x = Inr q \<and> 0 \<le> q"
proof -
  from assms obtain ip fp where ip: "ip \<noteq> []" "list_all (is_decimal u) ip"
    and fp: "list_all (is_decimal u) fp"
    and x: "x = ip \<or> (fp \<noteq> [] \<and> x = ip @ [46] @ fp)"
    unfolding decimal_shape_def by blast
  from ip(2) have nodot: "\<forall>c \<in> set ip. c \<noteq> 46"
    using dot_not_decimal [of u] by (auto simp: list_all_iff)
  from digits_value_total [OF ip(2)] obtain n where n: "digits_value u 0 ip = Some n" by blast
  from digits_value_total [OF fp] obtain f where f: "digits_value u 0 fp = Some f" by blast
  from x show ?thesis
  proof
    assume xe: "x = ip"
    from nodot have tw: "takeWhile (\<lambda>c. c \<noteq> 46) ip = ip"
      and dw: "dropWhile (\<lambda>c. c \<noteq> 46) ip = []"
      by simp_all
    have "py_float u x = Inr (of_nat n)"
      unfolding py_float_def Let_def xe tw dw using ip(1) n by simp
    then show ?thesis by simp
  next
    assume a: "fp \<noteq> [] \<and> x = ip @ [46] @ fp"
    then have xe: "x = ip @ 46 # fp" and fne: "fp \<noteq> []" by simp_all
    from nodot have tw: "takeWhile (\<lambda>c. c \<noteq> 46) (ip @ 46 # fp) = ip"
      and dw: "dropWhile (\<lambda>c. c \<noteq> 46) (ip @ 46 # fp) = 46 # fp"
      by (simp_all add: takeWhile_append2 dropWhile_append2)
    have "py_float u x = Inr (of_nat n + of_nat f / 10 ^ length fp)"
      unfolding py_float_def Let_def xe tw dw using ip(1) n f fne by simp
    then show ?thesis by simp
  qed
qed

lemma no_grp_lit: "no_grp (lit u s)"
  by (induction s) (simp_all add: lit_def)

lemma quantity_matches:
  assumes "x \<in> set (findall w (quantity_pattern u) s)"
  shows "decimal_shape u x"
proof -
  let ?tail = "Cat (Star (Chr is_space))
       (Cat (Opt (alts [Cat (lit u ''pc'') (Opt (lit u ''s'')),
                        Cat (lit u ''piece'') (Opt (lit u ''s'')),
                        Cat (lit u ''unit'') (Opt (lit u ''s'')),
                        Cat (lit u ''kit'') (Opt (lit u ''s'')),
                        Cat (lit u ''pack'') (Opt (lit u ''s'')),
                        Cat (lit u ''boxe'') (Opt (lit u ''s'')),
                        Cat (lit u ''set'') (Opt (lit u ''s''))]))
        Bnd)"
  have ng: "no_grp ?tail"
    by (simp add: no_grp_lit Opt_def)
  from assms have "x \<in> set (findall w (Cat Bnd (Cat (Grp (number_re u)) ?tail)) s)"
    unfolding quantity_pattern_def .
  from findall_grouped [OF this ng] have "accepts (number_re u) x" by blast
  then show ?thesis by (rule accepts_number_re)
qed

lemma extract_quantity_total:
  "\<exists>q un. extract_quantity_near_position u txt pos = Inr (q, un) \<and> nonneg_opt q"
proof -
  define before where "before = drop (pos - 50) (take pos txt)"
  define after where "after = take 50 (drop pos txt)"
  define bq where "bq = findall (is_word u) (quantity_pattern u) before"
  define aq where "aq = findall (is_word u) (quantity_pattern u) after"
  have eq: "extract_quantity_near_position u txt pos =
      (if bq \<noteq> []
       then (case py_float u (last bq) of
               Inl e \<Rightarrow> Inl e
             | Inr quantity \<Rightarrow> Inr (Some quantity, extract_unit u before (last bq)))
       else if aq \<noteq> []
            then (case py_float u (hd aq) of
                    Inl e \<Rightarrow> Inl e
                  | Inr quantity \<Rightarrow> Inr (Some quantity, extract_unit u after (hd aq)))
            else Inr (None, None))"
    unfolding extract_quantity_near_position_def Let_def before_def after_def bq_def aq_def
    by (rule refl)
  show ?thesis
  proof (cases "bq \<noteq> []")
    case True
    then have "last bq \<in> set bq" by simp
    then have "decimal_shape u (last bq)" unfolding bq_def by (rule quantity_matches)
    from py_float_decimal [OF this] obtain q where
      pf: "py_float u (last bq) = Inr q" and q: "0 \<le> q" by blast
    have "extract_quantity_near_position u txt pos = Inr (Some q, extract_unit u before (last bq))"
      unfolding eq using True by (simp add: pf)
    with q show ?thesis by (simp add: nonneg_opt_def)
  next
    case False
    show ?thesis
    proof (cases "aq \<noteq> []")
      case True
      then have "hd aq \<in> set aq" by simp
      then have "decimal_shape u (hd aq)" unfolding aq_def by (rule quantity_matches)
      from py_float_decimal [OF this] obtain q where
        pf: "py_float u (hd aq) = Inr q" and q: "0 \<le> q" by blast
      have "extract_quantity_near_position u txt pos = Inr (Some q, extract_unit u after (hd aq))"
        unfolding eq using True False by (simp add: pf)
      with q show ?thesis by (simp add: nonneg_opt_def)
    next
      case False2: False
      have "extract_quantity_near_position u txt pos = Inr (None, None)"
        unfolding eq using False False2 by simp
      then show ?thesis by (simp add: nonneg_opt_def)
    qed
  qed
qed

lemma sane_tolower: "c < 128 \<Longrightarrow> sane_cp (ascii_tolower c)"
  by (auto simp: sane_cp_def ascii_tolower_def ascii_upper_letter_def cased_like_ascii_def)

lemma lower_loop_sane:
  assumes "lower_sane u"
  shows "305 \<notin> set s \<Longrightarrow> 383 \<notin> set s \<Longrightarrow> list_all sane_cp (lower_loop u pre s)"
proof (induction s arbitrary: pre)
  case Nil
  then show ?case by simp
next
  case (Cons c s)
  from Cons.prems have c: "c \<noteq> 305" "c \<noteq> 383" and s: "305 \<notin> set s" "383 \<notin> set s"
    by auto
  have rest: "list_all sane_cp (lower_loop u (pre @ [c]) s)"
    using Cons.IH [OF s] .
  have first: "list_all sane_cp
      (if c < 128 then [ascii_tolower c]
       else if c = 383 \<or> c = 305 then [c]
       else if c = 8490 then [107]
       else if c = 304 then [105, 775]
       else ud_lower u pre c s)"
  proof (cases "c < 128")
    case True
    then show ?thesis by (simp add: sane_tolower)
  next
    case False
    show ?thesis
    proof (cases "c = 8490 \<or> c = 304")
      case True
      then show ?thesis
        using False c
        by (auto simp: sane_cp_def ascii_upper_letter_def cased_like_ascii_def)
    next
      case other: False
      with c have "\<not> cased_like_ascii c" by (simp add: cased_like_ascii_def)
      with assms False have "list_all sane_cp (ud_lower u pre c s)"
        unfolding lower_sane_def by (simp add: not_less)
      with False c other show ?thesis by simp
    qed
  qed
  from first rest show ?case by simp
qed

lemma lower_sane_text:
  assumes "lower_sane u" "305 \<notin> set s" "383 \<notin> set s"
  shows "list_all sane_cp (lower u s)"
  unfolding lower_def using lower_loop_sane [OF assms] .

lemma ci_sane:
  assumes "sane_cp y" and "ascii_lower_letter p"
  shows "ci u p y \<longleftrightarrow> y = p"
  using assms
  by (auto simp: ci_def sane_cp_def ascii_lower_letter_def ascii_upper_letter_def
        ascii_tolower_def cased_like_ascii_def split: if_splits)

lemma lit_sane:
  assumes "\<forall>c \<in> set kw. ascii_lower_letter (of_char c)" and "list_all sane_cp xs"
  shows "list_all2 (\<lambda>c y. ci u (of_char c) y) kw xs \<longleftrightarrow> xs = str kw"
  using assms
proof (induction kw arbitrary: xs)
  case Nil
  then show ?case by (simp add: str_def)
next
  case (Cons c kw)
  show ?case
  proof (cases xs)
    case Nil
    then show ?thesis by (simp add: str_def)
  next
    case (Cons y ys)
    from Cons.prems(2) Cons have y: "sane_cp y" and ys: "list_all sane_cp ys" by simp_all
    from Cons.prems(1) have c: "ascii_lower_letter (of_char c)"
      and kw: "\<forall>c \<in> set kw. ascii_lower_letter (of_char c)" by simp_all
    from Cons.IH [OF kw ys] ci_sane [OF y c, of u] show ?thesis
      unfolding Cons by (auto simp: str_def)
  qed
qed

lemma run_lit:
  "run w (lit u s) (pv, cs, g) =
     (if length s \<le> length cs \<and> list_all2 (\<lambda>c y. ci u (of_char c) y) s (take (length s) cs)
      then [(if s = [] then pv else Some (cs ! (length s - 1)), drop (length s) cs, g)]
      else [])"
proof (induction s arbitrary: pv cs)
  case Nil
  then show ?case by (simp add: lit_def run_step)
next
  case (Cons c s)
  have lit_Cons: "lit u (c # s) = Cat (Chr (ci u (of_char c))) (lit u s)"
    by (simp add: lit_def)
  show ?case
  proof (cases cs)
    case Nil
    then show ?thesis by (simp add: lit_Cons run_step)
  next
    case cs: (Cons y ys)
    show ?thesis
    proof (cases "ci u (of_char c) y")
      case False
      then show ?thesis by (simp add: lit_Cons run_step cs)
    next
      case True
      have "run w (lit u (c # s)) (pv, cs, g) = run w (lit u s) (Some y, ys, g)"
        using True by (simp add: lit_Cons run_step cs)
      also have "\<dots> =
        (if length s \<le> length ys \<and> list_all2 (\<lambda>c y. ci u (of_char c) y) s (take (length s) ys)
         then [(if s = [] then Some y else Some (ys ! (length s - 1)), drop (length s) ys, g)]
         else [])"
        by (rule Cons.IH)
      also have "\<dots> =
        (if length (c # s) \<le> length cs
            \<and> list_all2 (\<lambda>c y. ci u (of_char c) y) (c # s) (take (length (c # s)) cs)
         then [(if c # s = [] then pv else Some (cs ! (length (c # s) - 1)),
                drop (length (c # s)) cs, g)]
         else [])"
        using True by (cases s) (simp_all add: cs)
      finally show ?thesis .
    qed
  qed
qed

lemma run_alts_lits:
  "run w (alts (map (lit u) kws)) st = concat (map (\<lambda>kw. run w (lit u kw) st) kws)"
proof (induction kws)
  case Nil
  obtain pv cs g where st: "st = (pv, cs, g)" by (cases st) auto
  show ?case unfolding st by (cases cs) (simp_all add: run_step)
next
  case (Cons kw kws)
  show ?case
  proof (cases kws)
    case Nil
    then show ?thesis by simp
  next
    case (Cons k2 ks)
    then have "alts (map (lit u) (kw # kws)) = Alt (lit u kw) (alts (map (lit u) kws))"
      by simp
    with Cons.IH show ?thesis by (simp add: run_step)
  qed
qed

lemma state_from_Cons: "state_from (Some c) cs i = state_from pv (c # cs) (Suc i)"
  by (cases i) (simp_all add: state_from_def)

lemma find_iter_no_match:
  "(\<forall>i \<le> length cs. run w r (state_from pv cs i) = []) \<Longrightarrow> find_iter w r False pv cs k = []"
proof (induction cs arbitrary: pv k)
  case Nil
  then have "run w r (pv, [], None) = []" by (simp add: state_from_def)
  then show ?case by (subst find_iter.simps) simp
next
  case (Cons c cs)
  from Cons.prems have "run w r (state_from pv (c # cs) 0) = []" by blast
  then have here: "run w r (pv, c # cs, None) = []" by (simp add: state_from_def)
  have "\<forall>i \<le> length cs. run w r (state_from (Some c) cs i) = []"
  proof (intro allI impI)
    fix i assume "i \<le> length cs"
    then have "Suc i \<le> length (c # cs)" by simp
    with Cons.prems have "run w r (state_from pv (c # cs) (Suc i)) = []" by blast
    then show "run w r (state_from (Some c) cs i) = []"
      by (simp only: state_from_Cons [of c cs i pv])
  qed
  from Cons.IH [OF this] have "find_iter w r False (Some c) cs (k + 1) = []" .
  with here show ?case by (subst find_iter.simps) simp
qed

lemma find_iter_first:
  "i \<le> length cs \<Longrightarrow> (\<forall>j < i. run w r (state_from pv cs j) = []) \<Longrightarrow>
   run w r (state_from pv cs i) = (pv', cs', g) # rest \<Longrightarrow>
   \<exists>m tl. find_iter w r False pv cs k = (k + i, m, g) # tl"
proof (induction i arbitrary: pv cs k)
  case 0
  then have here: "run w r (pv, cs, None) = (pv', cs', g) # rest"
    by (simp add: state_from_def)
  show ?case by (subst find_iter.simps) (simp add: here)
next
  case (Suc i)
  from Suc.prems(1) obtain c cs1 where cs: "cs = c # cs1" by (cases cs) auto
  from Suc.prems(2) have "run w r (state_from pv cs 0) = []" by blast
  then have here: "run w r (pv, c # cs1, None) = []" by (simp add: state_from_def cs)
  have le: "i \<le> length cs1" using Suc.prems(1) cs by simp
  have none: "\<forall>j < i. run w r (state_from (Some c) cs1 j) = []"
  proof (intro allI impI)
    fix j assume "j < i"
    then have "Suc j < Suc i" by simp
    with Suc.prems(2) have "run w r (state_from pv cs (Suc j)) = []" by blast
    then show "run w r (state_from (Some c) cs1 j) = []"
      by (simp only: state_from_Cons [of c cs1 j pv] cs)
  qed
  have at: "run w r (state_from (Some c) cs1 i) = (pv', cs', g) # rest"
    using Suc.prems(3) by (simp only: state_from_Cons [of c cs1 i pv] cs)
  from Suc.IH [OF le none at, of "k + 1"] obtain m tl where
    "find_iter w r False (Some c) cs1 (k + 1) = (k + 1 + i, m, g) # tl" by blast
  with here show ?case unfolding cs by (subst find_iter.simps) simp
qed

lemma concat_map_map_concat:
  "concat (map g (map h (concat (map f xs)))) = concat (map (\<lambda>x. concat (map g (map h (f x)))) xs)"
proof (induction xs)
  case Nil
  show ?case by simp
next
  case (Cons a xs)
  have "concat (map g (map h (concat (map f (a # xs)))))
      = concat (map g (map h (f a))) @ concat (map g (map h (concat (map f xs))))"
    by simp
  also have "\<dots> = concat (map g (map h (f a))) @ concat (map (\<lambda>x. concat (map g (map h (f x)))) xs)"
    by (simp only: Cons.IH)
  also have "\<dots> = concat (map (\<lambda>x. concat (map g (map h (f x)))) (a # xs))"
    by simp
  finally show ?case .
qed

lemma concat_map_if_single:
  "concat (map (\<lambda>x. if P x then [r x] else []) xs) = map r (filter P xs)"
proof (induction xs)
  case Nil
  show ?case by simp
next
  case (Cons a xs)
  have "concat (map (\<lambda>x. if P x then [r x] else []) (a # xs))
      = (if P a then [r a] else []) @ concat (map (\<lambda>x. if P x then [r x] else []) xs)"
    by simp
  also have "\<dots> = (if P a then [r a] else []) @ map r (filter P xs)"
    by (simp only: Cons.IH)
  also have "\<dots> = map r (filter P (a # xs))"
    by simp
  finally show ?case .
qed

lemma filter_unique:
  assumes "distinct xs" and "x \<in> set xs" and "P x" and "\<forall>y \<in> set xs. P y \<longrightarrow> y = x"
  shows "filter P xs = [x]"
proof -
  from assms(2) obtain ys zs where xs: "xs = ys @ x # zs"
    by (meson split_list)
  from assms(1) have notin: "x \<notin> set ys" "x \<notin> set zs"
    unfolding xs by simp_all
  have other: "\<not> P y" if "y \<in> set ys \<or> y \<in> set zs" for y
  proof
    assume py: "P y"
    from that have "y \<in> set xs" unfolding xs by auto
    with assms(4) py have "y = x" by blast
    with that notin show False by blast
  qed
  have "filter P ys = []" "filter P zs = []"
    using other by (simp_all add: filter_empty_conv)
  with assms(3) show ?thesis unfolding xs by simp
qed

lemma run_grp_alts:
  "run w (Cat (Grp (alts (map (lit u) kws))) Bnd) (pv, cs, None) =
     concat (map (\<lambda>kw. concat (map (run w Bnd) (map (capture cs) (run w (lit u kw) (pv, cs, None))))) kws)"
proof -
  have a: "run w (Cat (Grp (alts (map (lit u) kws))) Bnd) (pv, cs, None)
      = concat (map (run w Bnd) (run w (Grp (alts (map (lit u) kws))) (pv, cs, None)))"
    by (rule run.simps(4))
  have b: "run w (Grp (alts (map (lit u) kws))) (pv, cs, None)
      = map (capture cs) (run w (alts (map (lit u) kws)) (pv, cs, None))"
    unfolding capture_def by (rule run.simps(9))
  have c: "run w (alts (map (lit u) kws)) (pv, cs, None)
      = concat (map (\<lambda>kw. run w (lit u kw) (pv, cs, None)) kws)"
    by (rule run_alts_lits)
  show ?thesis
    unfolding a b c by (rule concat_map_map_concat)
qed

lemma run_one_keyword:
  assumes sane: "list_all sane_cp cs" and ne: "kw \<noteq> []"
    and low: "\<forall>c \<in> set kw. ascii_lower_letter (of_char c)"
  shows "concat (map (run w Bnd) (map (capture cs) (run w (lit u kw) (pv, cs, None)))) =
      (if kw_here w cs kw then [(Some (cs ! (length kw - 1)), drop (length kw) cs, Some (str kw))]
       else [])"
proof -
  have sane_take: "list_all sane_cp (take (length kw) cs)"
    using sane by (auto simp: list_all_iff dest: in_set_takeD)
  note ls = lit_sane [OF low sane_take, of u]
  show ?thesis
  proof (cases "length kw \<le> length cs \<and> take (length kw) cs = str kw")
    case True
    then have len: "length cs - length (drop (length kw) cs) = length kw" by simp
    from True ls have r: "run w (lit u kw) (pv, cs, None)
        = [(Some (cs ! (length kw - 1)), drop (length kw) cs, None)]"
      by (simp add: run_lit ne)
    have c: "capture cs (Some (cs ! (length kw - 1)), drop (length kw) cs, None)
        = (Some (cs ! (length kw - 1)), drop (length kw) cs, Some (str kw))"
      using True by (simp add: capture_def len)
    have b: "run w Bnd (Some (cs ! (length kw - 1)), drop (length kw) cs, Some (str kw))
        = (if kw_here w cs kw
           then [(Some (cs ! (length kw - 1)), drop (length kw) cs, Some (str kw))] else [])"
      using True by (simp add: run.simps(8) kw_here_def)
    show ?thesis by (simp only: r list.map c concat.simps b append_Nil2)
  next
    case False
    with ls have "run w (lit u kw) (pv, cs, None) = []"
      by (simp add: run_lit)
    moreover from False have "\<not> kw_here w cs kw" by (auto simp: kw_here_def)
    ultimately show ?thesis by simp
  qed
qed

lemma urgency_words_ok:
  "\<forall>kw \<in> set urgency_words. kw \<noteq> [] \<and> (\<forall>c \<in> set kw. ascii_lower_letter (of_char c))"
  by (simp add: urgency_words_def ascii_lower_letter_def)

lemma urgency_keywords_words: "urgency_keywords = map str urgency_words"
  by (simp add: urgency_keywords_def urgency_words_def)

lemma urgency_pattern_words:
  "urgency_pattern u = Cat Bnd (Cat (Grp (alts (map (lit u) urgency_words))) Bnd)"
  by (simp add: urgency_pattern_def urgency_words_def)

lemma urgency_words_first:
  assumes "k \<in> set urgency_words" and "k' \<in> set urgency_words" and "hd (str k) = hd (str k')"
  shows "k = k'"
proof -
  have hds: "map (\<lambda>k. hd (str k)) urgency_words = [97, 117, 114, 105, 113, 102]"
    by (simp add: urgency_words_def str_def)
  have "distinct (map (\<lambda>k. hd (str k)) urgency_words)"
    unfolding hds by simp
  then have "inj_on (\<lambda>k. hd (str k)) (set urgency_words)"
    by (simp add: distinct_map)
  with assms show ?thesis by (simp add: inj_on_def)
qed

lemma run_urgency_pattern:
  assumes "list_all sane_cp cs"
  shows "run w (urgency_pattern u) (pv, cs, None) =
     (if at_boundary w pv cs
      then map (\<lambda>kw. (Some (cs ! (length kw - 1)), drop (length kw) cs, Some (str kw)))
             (filter (kw_here w cs) urgency_words)
      else [])"
proof -
  have each: "(\<lambda>kw. concat (map (run w Bnd) (map (capture cs) (run w (lit u kw) (pv, cs, None)))))  kw
      = (\<lambda>kw. if kw_here w cs kw
               then [(Some (cs ! (length kw - 1)), drop (length kw) cs, Some (str kw))] else []) kw"
    if "kw \<in> set urgency_words" for kw
    using run_one_keyword [OF assms, of kw w u pv] urgency_words_ok that by blast
  have inner: "run w (Cat (Grp (alts (map (lit u) urgency_words))) Bnd) (pv, cs, None) =
      map (\<lambda>kw. (Some (cs ! (length kw - 1)), drop (length kw) cs, Some (str kw)))
          (filter (kw_here w cs) urgency_words)"
    unfolding run_grp_alts
    by (subst map_cong [OF refl each]) (simp_all only: concat_map_if_single)
  show ?thesis
    unfolding urgency_pattern_words
    by (subst run.simps(4)) (simp add: run.simps(8) inner)
qed

lemma at_boundary_drop:
  assumes "k \<le> length t"
  shows "at_boundary w pv (drop k t)
     \<longleftrightarrow> ((case pv of None \<Rightarrow> False | Some c \<Rightarrow> w c) \<noteq> (k < length t \<and> w (t ! k)))"
proof (cases "k < length t")
  case True
  then have "drop k t = t ! k # drop (Suc k) t" by (simp add: Cons_nth_drop_Suc)
  with True show ?thesis by (simp add: at_boundary_def)
next
  case False
  with assms have "drop k t = []" by simp
  with False show ?thesis by (simp add: at_boundary_def)
qed

lemma keyword_at_state:
  assumes "i \<le> length t" and "kw \<noteq> []"
  shows "at_boundary (is_word u) (if i = 0 then None else Some (t ! (i - 1))) (drop i t)
           \<and> kw_here (is_word u) (drop i t) kw
         \<longleftrightarrow> keyword_at u t i (str kw)"
proof -
  have b1: "at_boundary (is_word u) (if i = 0 then None else Some (t ! (i - 1))) (drop i t)
      \<longleftrightarrow> word_boundary_at u t i"
    using at_boundary_drop [OF assms(1), of "is_word u"]
    by (cases "i = 0") (simp_all add: word_boundary_at_def)
  have len: "length (str kw) = length kw" by (simp add: str_def)
  show ?thesis
  proof (cases "i + length kw \<le> length t")
    case False
    with assms(1) have "\<not> length kw \<le> length (drop i t)" by simp
    with False show ?thesis
      unfolding kw_here_def keyword_at_def len by blast
  next
    case True
    from assms(2) have pos: "0 < length kw" by simp
    have idx: "i + (length kw - 1) = i + length kw - 1" using pos by arith
    have nth: "drop i t ! (length kw - 1) = t ! (i + length kw - 1)"
      using True pos by (simp add: idx del: One_nat_def)
    have dd: "drop (length kw) (drop i t) = drop (i + length kw) t"
      by (simp add: add.commute)
    have b2: "at_boundary (is_word u) (Some (drop i t ! (length kw - 1)))
                (drop (length kw) (drop i t))
      \<longleftrightarrow> word_boundary_at u t (i + length kw)"
      unfolding nth dd using at_boundary_drop [OF True, of "is_word u"] pos
      by (simp add: word_boundary_at_def)
    from True have le: "length kw \<le> length (drop i t)" by simp
    show ?thesis
      unfolding keyword_at_def kw_here_def len b1 [symmetric] b2 [symmetric]
      using True le by blast
  qed
qed

lemma sane_suffix: "list_all sane_cp (pre @ cs) \<Longrightarrow> list_all sane_cp cs"
  by simp

lemma sane_drop: "list_all sane_cp t \<Longrightarrow> list_all sane_cp (drop i t)"
  by (auto simp: list_all_iff dest: in_set_dropD)

lemma urgency_matches_keywords:
  assumes "list_all sane_cp t"
    and "x \<in> set (findall (is_word u) (urgency_pattern u) t)"
  shows "x \<in> set urgency_keywords"
proof -
  from assms(2) obtain k m g where
    mem: "(k, m, g) \<in> set (find_iter (is_word u) (urgency_pattern u) False None t 0)"
    and x: "x = (case g of None \<Rightarrow> m | Some y \<Rightarrow> y)"
    by (auto simp: findall_def finditer_def)
  from find_iter_run [OF mem] obtain pre pv0 cs0 pv' cs' where
    t: "t = pre @ cs0"
    and r: "(pv', cs', g) \<in> set (run (is_word u) (urgency_pattern u) (pv0, cs0, None))"
    by blast
  from assms(1) t have "list_all sane_cp cs0" by simp
  from r run_urgency_pattern [OF this, of "is_word u" u pv0]
  obtain kw where "kw \<in> set urgency_words" "g = Some (str kw)"
    by (auto split: if_splits)
  with x show ?thesis by (simp add: urgency_keywords_words)
qed

lemma run_state_empty:
  assumes sane: "list_all sane_cp t" and i: "i \<le> length t"
    and none: "\<forall>kw \<in> set urgency_keywords. \<not> keyword_at u t i kw"
  shows "run (is_word u) (urgency_pattern u) (state_from None t i) = []"
proof -
  have "filter (kw_here (is_word u) (drop i t)) urgency_words = []"
    if "at_boundary (is_word u) (if i = 0 then None else Some (t ! (i - 1))) (drop i t)"
  proof -
    have "\<not> kw_here (is_word u) (drop i t) kw" if kw: "kw \<in> set urgency_words" for kw
    proof
      assume h: "kw_here (is_word u) (drop i t) kw"
      from kw urgency_words_ok have ne: "kw \<noteq> []" by blast
      from keyword_at_state [OF i ne, of u] h
        \<open>at_boundary (is_word u) (if i = 0 then None else Some (t ! (i - 1))) (drop i t)\<close>
      have "keyword_at u t i (str kw)" by blast
      moreover from kw have "str kw \<in> set urgency_keywords"
        by (simp add: urgency_keywords_words)
      ultimately show False using none by blast
    qed
    then show ?thesis by (simp add: filter_empty_conv)
  qed
  then show ?thesis
    unfolding state_from_def
    by (simp add: run_urgency_pattern [OF sane_drop [OF sane]])
qed

lemma run_state_keyword:
  assumes sane: "list_all sane_cp t"
    and kw: "kw \<in> set urgency_words" and at: "keyword_at u t i (str kw)"
  shows "\<exists>pv' cs'. run (is_word u) (urgency_pattern u) (state_from None t i)
           = [(pv', cs', Some (str kw))]"
proof -
  from kw urgency_words_ok have ne: "kw \<noteq> []" by blast
  from at have i: "i \<le> length t" by (simp add: keyword_at_def)
  from keyword_at_state [OF i ne, of u] at have
    b: "at_boundary (is_word u) (if i = 0 then None else Some (t ! (i - 1))) (drop i t)"
    and h: "kw_here (is_word u) (drop i t) kw"
    by blast+
  have uniq: "\<forall>k' \<in> set urgency_words. kw_here (is_word u) (drop i t) k' \<longrightarrow> k' = kw"
  proof (intro ballI impI)
    fix k' assume k': "k' \<in> set urgency_words" and h': "kw_here (is_word u) (drop i t) k'"
    from k' urgency_words_ok have ne': "k' \<noteq> []" by blast
    from h have t1: "take (length kw) (drop i t) = str kw" by (simp add: kw_here_def)
    from h' have t2: "take (length k') (drop i t) = str k'" by (simp add: kw_here_def)
    from ne have "hd (str kw) = hd (take (length kw) (drop i t))" by (simp only: t1)
    also from ne have "\<dots> = hd (drop i t)" by (cases "drop i t") simp_all
    also from ne' have "\<dots> = hd (take (length k') (drop i t))" by (cases "drop i t") simp_all
    also have "\<dots> = hd (str k')" by (simp only: t2)
    finally show "k' = kw" using urgency_words_first [OF k' kw] by simp
  qed
  have dist: "distinct urgency_words" by (simp add: urgency_words_def)
  from filter_unique [OF dist kw h uniq] b show ?thesis
    unfolding state_from_def
    by (simp add: run_urgency_pattern [OF sane_drop [OF sane]])
qed

lemma urgency_loop_filter:
  "urgency_loop ms =
     (case filter (\<lambda>m. m \<in> set urgency_keywords) ms of
        [] \<Rightarrow> Some (str ''low'')
      | m # _ \<Rightarrow> Some (urgency_tier m))"
proof (induction ms)
  case Nil
  show ?case by simp
next
  case (Cons m ms)
  consider (high) "m \<in> set [str ''asap'', str ''urgent'', str ''rush'', str ''immediate'']"
    | (medium) "m \<notin> set [str ''asap'', str ''urgent'', str ''rush'', str ''immediate'']"
        "m \<in> set [str ''quick'', str ''fast'']"
    | (other) "m \<notin> set [str ''asap'', str ''urgent'', str ''rush'', str ''immediate'']"
        "m \<notin> set [str ''quick'', str ''fast'']"
    by blast
  then show ?case
  proof cases
    case high
    then have "m \<in> set urgency_keywords" by (auto simp: urgency_keywords_def)
    with high show ?thesis by (simp add: urgency_tier_def)
  next
    case medium
    then have "m \<in> set urgency_keywords" by (auto simp: urgency_keywords_def)
    with medium show ?thesis by (simp add: urgency_tier_def)
  next
    case other
    then have "m \<notin> set urgency_keywords" by (simp add: urgency_keywords_def)
    with other Cons.IH show ?thesis by simp
  qed
qed

lemma urgency_loop_keyword:
  assumes "m \<in> set urgency_keywords"
  shows "urgency_loop (m # ms) = Some (urgency_tier m)"
  using assms by (simp add: urgency_loop_filter)

lemma spec_urgency_keyword:
  assumes "m \<in> set urgency_keywords"
  shows "spec_urgency (m # ms) = Some (urgency_tier m)"
  using assms by (auto simp: spec_urgency_def urgency_tier_def urgency_keywords_def)

lemma extract_urgency_sane:
  assumes h1: "305 \<notin> set content" and h2: "383 \<notin> set content" and h3: "lower_sane u"
  shows "extract_urgency u content
           = spec_urgency (findall (is_word u) (urgency_pattern u) (lower u content))"
    and "\<forall>m \<in> set (findall (is_word u) (urgency_pattern u) (lower u content)).
           m \<in> set urgency_keywords"
    and "(\<forall>i. \<forall>kw \<in> set urgency_keywords. \<not> keyword_at u (lower u content) i kw)
           \<longrightarrow> extract_urgency u content = None"
    and "\<forall>i. \<forall>kw \<in> set urgency_keywords.
           keyword_at u (lower u content) i kw
           \<and> (\<forall>j < i. \<forall>kw' \<in> set urgency_keywords. \<not> keyword_at u (lower u content) j kw')
           \<longrightarrow> extract_urgency u content = Some (urgency_tier kw)"
proof -
  let ?t = "lower u content"
  let ?ms = "findall (is_word u) (urgency_pattern u) ?t"
  have sane: "list_all sane_cp ?t" by (rule lower_sane_text [OF h3 h1 h2])
  show kws: "\<forall>m \<in> set ?ms. m \<in> set urgency_keywords"
    using urgency_matches_keywords [OF sane] by blast
  show "extract_urgency u content = spec_urgency ?ms"
  proof (cases ?ms)
    case Nil
    then show ?thesis by (simp add: extract_urgency_def spec_urgency_def)
  next
    case (Cons m rest)
    with kws have "m \<in> set urgency_keywords" by simp
    from urgency_loop_keyword [OF this, of rest] spec_urgency_keyword [OF this, of rest]
    show ?thesis by (simp add: extract_urgency_def Let_def Cons)
  qed
  show "(\<forall>i. \<forall>kw \<in> set urgency_keywords. \<not> keyword_at u ?t i kw)
           \<longrightarrow> extract_urgency u content = None"
  proof
    assume none: "\<forall>i. \<forall>kw \<in> set urgency_keywords. \<not> keyword_at u ?t i kw"
    have "\<forall>i \<le> length ?t. run (is_word u) (urgency_pattern u) (state_from None ?t i) = []"
      using run_state_empty [OF sane] none by blast
    from find_iter_no_match [OF this, of 0] have "?ms = []"
      by (simp add: findall_def finditer_def)
    then show "extract_urgency u content = None" by (simp add: extract_urgency_def)
  qed
  show "\<forall>i. \<forall>kw \<in> set urgency_keywords.
           keyword_at u ?t i kw
           \<and> (\<forall>j < i. \<forall>kw' \<in> set urgency_keywords. \<not> keyword_at u ?t j kw')
           \<longrightarrow> extract_urgency u content = Some (urgency_tier kw)"
  proof (intro allI ballI impI)
    fix i kw
    assume kw: "kw \<in> set urgency_keywords"
      and h: "keyword_at u ?t i kw
              \<and> (\<forall>j < i. \<forall>kw' \<in> set urgency_keywords. \<not> keyword_at u ?t j kw')"
    from kw obtain k where k: "k \<in> set urgency_words" and kwk: "kw = str k"
      by (auto simp: urgency_keywords_words)
    from h have at: "keyword_at u ?t i (str k)" by (simp add: kwk)
    then have i: "i \<le> length ?t" by (simp add: keyword_at_def)
    have before: "\<forall>j < i. run (is_word u) (urgency_pattern u) (state_from None ?t j) = []"
    proof (intro allI impI)
      fix j assume j: "j < i"
      with i have jl: "j \<le> length ?t" by simp
      from h j have "\<forall>kw' \<in> set urgency_keywords. \<not> keyword_at u ?t j kw'" by blast
      from run_state_empty [OF sane jl this]
      show "run (is_word u) (urgency_pattern u) (state_from None ?t j) = []" .
    qed
    from run_state_keyword [OF sane k at] obtain pv' cs' where
      here: "run (is_word u) (urgency_pattern u) (state_from None ?t i)
               = (pv', cs', Some (str k)) # []"
      by blast
    from find_iter_first [OF i before here, of 0] obtain m tl where
      "find_iter (is_word u) (urgency_pattern u) False None ?t 0 = (0 + i, m, Some (str k)) # tl"
      by blast
    then obtain rest where ms: "?ms = str k # rest"
      by (simp add: findall_def finditer_def)
    from urgency_loop_keyword [of "str k" rest] kw kwk
    show "extract_urgency u content = Some (urgency_tier kw)"
      by (simp add: extract_urgency_def Let_def ms)
  qed
qed

lemma extract_urgency_general:
  "extract_urgency u content =
     (let ms = findall (is_word u) (urgency_pattern u) (lower u content)
      in if ms = [] then None
         else case filter (\<lambda>m. m \<in> set urgency_keywords) ms of
                [] \<Rightarrow> Some (str ''low'')
              | m # _ \<Rightarrow> Some (urgency_tier m))"
  by (simp add: extract_urgency_def Let_def urgency_loop_filter)

lemma lower_loop_ascii:
  "\<forall>c \<in> set s. c < 128 \<Longrightarrow> lower_loop u pre s = map ascii_tolower s"
  by (induction s arbitrary: pre) simp_all

lemma lower_sane_minimal: "lower_sane minimal_db"
  by (simp add: lower_sane_def minimal_db_def sane_cp_def ascii_upper_letter_def)

text \<open>
  C9 (amended). For every input text that contains neither U+0131 (dotless i) nor U+017F
  (long s), urgency extraction returns only absent, "high" or "medium", provided the
  lower-casing table is sane (\<open>lower_sane\<close>): every match of the pattern in the
  lower-cased text is then literally one of asap, urgent, rush, immediate, quick, fast.
  With one of the two letters the "low" branch is reached: the pattern, compiled with
  \<open>re.IGNORECASE\<close>, matches "a\<open>U+017F\<close>ap", which \<open>str.lower\<close> leaves as it is and
  which is in neither keyword list.
\<close>

theorem C9_never_low:
  assumes "305 \<notin> set content" and "383 \<notin> set content" and "lower_sane u"
  shows "extract_urgency u content \<in> {None, Some (str ''high''), Some (str ''medium'')}"
proof -
  let ?ms = "findall (is_word u) (urgency_pattern u) (lower u content)"
  note eq = extract_urgency_sane(1) [OF assms] and kws = extract_urgency_sane(2) [OF assms]
  show ?thesis
  proof (cases ?ms)
    case Nil
    then show ?thesis unfolding eq by (simp add: spec_urgency_def)
  next
    case (Cons m rest)
    with kws have "m \<in> set urgency_keywords" by simp
    from spec_urgency_keyword [OF this, of rest] show ?thesis
      unfolding eq Cons by (simp add: urgency_tier_def)
  qed
qed

theorem C9_low_counterexample:
  "extract_urgency minimal_db [97, 383, 97, 112] = Some (str ''low'')"
  by code_simp

theorem C9_never_low_witness:
  "305 \<notin> set [99, 97, 102, 233, 32, 65, 83, 65, 80::nat]
   \<and> 383 \<notin> set [99, 97, 102, 233, 32, 65, 83, 65, 80::nat]
   \<and> lower_sane minimal_db
   \<and> extract_urgency minimal_db [99, 97, 102, 233, 32, 65, 83, 65, 80]
       \<in> {None, Some (str ''high''), Some (str ''medium'')}"
proof -
  have h1: "305 \<notin> set [99, 97, 102, 233, 32, 65, 83, 65, 80::nat]" by simp
  have h2: "383 \<notin> set [99, 97, 102, 233, 32, 65, 83, 65, 80::nat]" by simp
  from C9_never_low [OF h1 h2 lower_sane_minimal] h1 h2 lower_sane_minimal
  show ?thesis by blast
qed

text \<open>
  C6 (amended). For every cleaned text, urgency extraction returns absent when the pattern
  has no match in the lower-cased text, and otherwise the tier of the first match, in text
  order, that is literally one of the six keywords ("high" for asap, urgent, rush,
  immediate, "medium" for quick, fast), "low" when no match is. When the text contains
  neither U+0131 nor U+017F and the lower-casing table is sane, every match is literally a
  keyword and the matches are exactly the keywords that stand between two word boundaries
  of the lower-cased text: the result is the tier of the leftmost such keyword, whatever
  tier comes later, and absent when there is none. With one of the two letters a first match
  that is in neither list is skipped (\<open>C6_first_match_counterexample\<close>).
\<close>

theorem C6_first_keyword:
  "extract_urgency u content =
     (let ms = findall (is_word u) (urgency_pattern u) (lower u content)
      in if ms = [] then None
         else case filter (\<lambda>m. m \<in> set urgency_keywords) ms of
                [] \<Rightarrow> Some (str ''low'')
              | m # _ \<Rightarrow> Some (urgency_tier m))
   \<and> sorted (map fst (finditer (is_word u) (urgency_pattern u) (lower u content)))
   \<and> ((\<forall>c \<in> set content. c < 128) \<longrightarrow> lower u content = map ascii_tolower content)
   \<and> (305 \<notin> set content \<and> 383 \<notin> set content \<and> lower_sane u \<longrightarrow>
        extract_urgency u content
          = spec_urgency (findall (is_word u) (urgency_pattern u) (lower u content))
        \<and> (\<forall>m \<in> set (findall (is_word u) (urgency_pattern u) (lower u content)).
              m \<in> set urgency_keywords)
        \<and> ((\<forall>i. \<forall>kw \<in> set urgency_keywords. \<not> keyword_at u (lower u content) i kw)
              \<longrightarrow> extract_urgency u content = None)
        \<and> (\<forall>i. \<forall>kw \<in> set urgency_keywords.
              keyword_at u (lower u content) i kw
              \<and> (\<forall>j < i. \<forall>kw' \<in> set urgency_keywords.
                     \<not> keyword_at u (lower u content) j kw')
              \<longrightarrow> extract_urgency u content = Some (urgency_tier kw)))"
proof (intro conjI impI)
  show "extract_urgency u content =
     (let ms = findall (is_word u) (urgency_pattern u) (lower u content)
      in if ms = [] then None
         else case filter (\<lambda>m. m \<in> set urgency_keywords) ms of
                [] \<Rightarrow> Some (str ''low'')
              | m # _ \<Rightarrow> Some (urgency_tier m))"
    by (rule extract_urgency_general)
  show "sorted (map fst (finditer (is_word u) (urgency_pattern u) (lower u content)))"
    by (simp add: finditer_def find_iter_sorted)
  show "lower u content = map ascii_tolower content" if "\<forall>c \<in> set content. c < 128"
    using that by (simp add: lower_def lower_loop_ascii)
next
  assume h: "305 \<notin> set content \<and> 383 \<notin> set content \<and> lower_sane u"
  then have h1: "305 \<notin> set content" and h2: "383 \<notin> set content" and h3: "lower_sane u"
    by simp_all
  show "extract_urgency u content
          = spec_urgency (findall (is_word u) (urgency_pattern u) (lower u content))"
    by (rule extract_urgency_sane(1) [OF h1 h2 h3])
  show "\<forall>m \<in> set (findall (is_word u) (urgency_pattern u) (lower u content)).
          m \<in> set urgency_keywords"
    by (rule extract_urgency_sane(2) [OF h1 h2 h3])
  show "extract_urgency u content = None"
    if "\<forall>i. \<forall>kw \<in> set urgency_keywords. \<not> keyword_at u (lower u content) i kw"
    using extract_urgency_sane(3) [OF h1 h2 h3] that by blast
  show "\<forall>i. \<forall>kw \<in> set urgency_keywords.
              keyword_at u (lower u content) i kw
              \<and> (\<forall>j < i. \<forall>kw' \<in> set urgency_keywords.
                     \<not> keyword_at u (lower u content) j kw')
              \<longrightarrow> extract_urgency u content = Some (urgency_tier kw)"
    by (rule extract_urgency_sane(4) [OF h1 h2 h3])
qed

theorem C6_first_match_counterexample:
  "extract_urgency minimal_db ([97, 383, 97, 112] @ str '' now, quick'') = Some (str ''medium'')
   \<and> spec_urgency (findall (is_word minimal_db) (urgency_pattern minimal_db)
                      (lower minimal_db ([97, 383, 97, 112] @ str '' now, quick'')))
       = Some (str ''low'')"
  by code_simp

theorem C6_first_keyword_witness:
  "305 \<notin> set (str ''Quick reply please, asap'')
   \<and> 383 \<notin> set (str ''Quick reply please, asap'')
   \<and> lower_sane minimal_db
   \<and> keyword_at minimal_db (lower minimal_db (str ''Quick reply please, asap'')) 0 (str ''quick'')
   \<and> keyword_at minimal_db (lower minimal_db (str ''Quick reply please, asap'')) 20 (str ''asap'')
   \<and> extract_urgency minimal_db (str ''Quick reply please, asap'') = Some (str ''medium'')"
proof -
  let ?c = "str ''Quick reply please, asap''"
  have h1: "305 \<notin> set ?c" by code_simp
  have h2: "383 \<notin> set ?c" by code_simp
  have k0: "keyword_at minimal_db (lower minimal_db ?c) 0 (str ''quick'')" by code_simp
  have k20: "keyword_at minimal_db (lower minimal_db ?c) 20 (str ''asap'')" by code_simp
  have kin: "str ''quick'' \<in> set urgency_keywords" by (simp add: urgency_keywords_def)
  have tier: "urgency_tier (str ''quick'') = str ''medium''" by code_simp
  have first: "keyword_at minimal_db (lower minimal_db ?c) 0 (str ''quick'')
      \<and> (\<forall>j < 0. \<forall>kw' \<in> set urgency_keywords.
             \<not> keyword_at minimal_db (lower minimal_db ?c) j kw')"
    using k0 by simp
  note all = C6_first_keyword [of minimal_db ?c, THEN conjunct2, THEN conjunct2, THEN conjunct2,
      THEN mp, OF conjI [OF h1 conjI [OF h2 lower_sane_minimal]]]
  note leftmost = all [THEN conjunct2, THEN conjunct2, THEN conjunct2]
  from leftmost [THEN spec, of 0, THEN bspec, OF kin, THEN mp, OF first]
  have "extract_urgency minimal_db ?c = Some (str ''medium'')"
    by (simp only: tier)
  with h1 h2 k0 k20 lower_sane_minimal show ?thesis by blast
qed


end
